theory Spec2Isabelle
  imports Complex_Main "HOL-Library.Sublist"
begin

section \<open>Data model\<close>

text \<open>
  Text that comes from the user (a file name, the search term) is a JavaScript string: a
  sequence of UTF-16 code units, each a number below 65536. An ASCII literal of the source
  that is joined to such text is written through \<open>js\<close>. Ids, media types, object URLs and
  toast titles are ASCII and are HOL strings.
\<close>

type_synonym js_string = "nat list"

definition js :: "string \<Rightarrow> js_string" where
  "js s = map of_char s"

text \<open>
  The catalog entry of the file context (\<^verbatim>\<open>CloudFile\<close>). The source's field names
  \<^verbatim>\<open>id\<close>, \<^verbatim>\<open>name\<close>, \<^verbatim>\<open>type\<close>, \<^verbatim>\<open>size\<close>, \<^verbatim>\<open>url\<close>, \<^verbatim>\<open>uploadDate\<close>, \<^verbatim>\<open>thumbnail\<close> carry
  the prefix \<open>cf_\<close>. A \<^verbatim>\<open>Date\<close> is its millisecond count.
\<close>

datatype file_type = Video | Audio | Pdf

record cloud_file =
  cf_id :: string
  cf_name :: js_string
  cf_type :: file_type
  cf_size :: nat
  cf_url :: string
  cf_uploadDate :: nat
  cf_thumbnail :: "string option"

text \<open>
  The browser's \<^verbatim>\<open>File\<close> object, as far as the pages read it: its name, its declared
  media type and its size in bytes.
\<close>

record js_file =
  f_name :: js_string
  f_type :: string
  f_size :: nat

text \<open>The argument of a \<^verbatim>\<open>toast({...})\<close> call.\<close>

record toast =
  t_title :: string
  t_description :: js_string
  t_variant :: "string option"

section \<open>The file context (catalog)\<close>

text \<open>
  \<^verbatim>\<open>setFiles(prev => [...prev, file])\<close>,
  \<^verbatim>\<open>setFiles(prev => prev.filter(file => file.id !== id))\<close> and
  \<^verbatim>\<open>files.find(file => file.id === id)\<close>; each function takes the list held by the
  provider and the two updaters return the new list.
\<close>

definition addFile :: "cloud_file list \<Rightarrow> cloud_file \<Rightarrow> cloud_file list" where
  "addFile prev file = prev @ [file]"

definition removeFile :: "cloud_file list \<Rightarrow> string \<Rightarrow> cloud_file list" where
  "removeFile prev i = filter (\<lambda>file. cf_id file \<noteq> i) prev"

definition getFile :: "cloud_file list \<Rightarrow> string \<Rightarrow> cloud_file option" where
  "getFile files i = find (\<lambda>file. cf_id file = i) files"

section \<open>The upload page\<close>

datatype upload_status = Uploading | Completed | Error

text \<open>\<^verbatim>\<open>UploadingFile\<close>: fields \<^verbatim>\<open>file\<close>, \<^verbatim>\<open>progress\<close>, \<^verbatim>\<open>status\<close>, \<^verbatim>\<open>id\<close>, prefixed \<open>uf_\<close>.\<close>

record uploading_file =
  uf_file :: js_file
  uf_progress :: real
  uf_status :: upload_status
  uf_id :: string

text \<open>
  \<^verbatim>\<open>getFileType\<close>: \<^verbatim>\<open>startsWith('video/')\<close>, then \<^verbatim>\<open>startsWith('audio/')\<close>, then equality
  with \<^verbatim>\<open>'application/pdf'\<close>; \<^verbatim>\<open>null\<close> is \<open>None\<close>.
\<close>

definition getFileType :: "js_file \<Rightarrow> file_type option" where
  "getFileType file =
     (if prefix ''video/'' (f_type file) then Some Video
      else if prefix ''audio/'' (f_type file) then Some Audio
      else if f_type file = ''application/pdf'' then Some Pdf
      else None)"

text \<open>
  The callback that \<^verbatim>\<open>handleFiles\<close> passes to \<^verbatim>\<open>fileArray.filter\<close>: the boolean it
  returns, and the toasts it raises on the way.
\<close>

definition validFile :: "js_file \<Rightarrow> bool \<times> toast list" where
  "validFile file =
     (case getFileType file of
        None \<Rightarrow>
          (False,
           [\<lparr>t_title = ''Unsupported File Type'',
             t_description =
               f_name file @ js '' is not supported. Please upload video, audio, or PDF files.'',
             t_variant = Some ''destructive''\<rparr>])
      | Some _ \<Rightarrow>
          if f_size file > 50 * 1024 * 1024 then
            (False,
             [\<lparr>t_title = ''File Too Large'',
               t_description = f_name file @ js '' is too large. Maximum file size is 50MB.'',
               t_variant = Some ''destructive''\<rparr>])
          else (True, []))"

text \<open>
  The state the handlers act on: the upload page's \<^verbatim>\<open>uploadingFiles\<close>, the context's
  \<^verbatim>\<open>files\<close>, the intervals that \<^verbatim>\<open>setInterval\<close> has started and \<^verbatim>\<open>clearInterval\<close> has not
  cleared (each with the id its callback closes over), the next interval handle, the toasts
  raised so far and the object URLs revoked so far.
\<close>

record app_state =
  uploadingFiles :: "uploading_file list"
  files :: "cloud_file list"
  intervals :: "(nat \<times> string) list"
  nextInterval :: nat
  toasts :: "toast list"
  revoked :: "string list"

definition init_state :: app_state where
  "init_state = \<lparr>uploadingFiles = [], files = [], intervals = [], nextInterval = 0,
     toasts = [], revoked = []\<rparr>"

text \<open>
  What one run of the interval callback takes from its environment for one matching entry:
  the value of \<^verbatim>\<open>Math.random()\<close>, the string \<^verbatim>\<open>URL.createObjectURL\<close> returns and the
  time \<^verbatim>\<open>new Date()\<close> reads.
\<close>

record draw =
  d_random :: real
  d_objectURL :: string
  d_date :: nat

text \<open>
  A JavaScript number is a double. The model holds it as the real number it stands for,
  and every function that computes with numbers takes \<open>fl\<close>, the rounding of a real number
  to the nearest double, as a parameter: a product or a sum of the source is \<open>fl\<close> of the
  exact product or sum. What the proofs need of \<open>fl\<close> is collected in \<open>rounding\<close>: it is
  monotone, it leaves a double as it is, and 0 and 100 are doubles. IEEE 754 rounding to
  nearest has these properties.
\<close>

definition rounding :: "(real \<Rightarrow> real) \<Rightarrow> bool" where
  "rounding fl \<longleftrightarrow>
     (\<forall>x y. x \<le> y \<longrightarrow> fl x \<le> fl y) \<and> (\<forall>x. fl (fl x) = fl x) \<and> fl 0 = 0 \<and> fl 100 = 100"

text \<open>
  The body of the \<^verbatim>\<open>map\<close> callback inside the interval callback of \<^verbatim>\<open>simulateUpload\<close>,
  for the interval whose closure holds the id \<open>i\<close>: the entry it returns, whether it called
  \<^verbatim>\<open>clearInterval\<close>, the entries it passed to \<^verbatim>\<open>addFile\<close> and the toasts it raised.
\<close>

record tick_result =
  tr_entry :: uploading_file
  tr_clear :: bool
  tr_added :: "cloud_file list"
  tr_toasts :: "toast list"

definition tick_entry :: "(real \<Rightarrow> real) \<Rightarrow> string \<Rightarrow> draw \<Rightarrow> uploading_file \<Rightarrow> tick_result" where
  "tick_entry fl i d uf =
     (if uf_id uf = i then
        (let newProgress = min (fl (uf_progress uf + fl (d_random d * 15))) 100 in
         if newProgress \<ge> 100 then
           (case getFileType (uf_file uf) of
              Some fileType \<Rightarrow>
                \<lparr>tr_entry = uf\<lparr>uf_progress := 100, uf_status := Completed\<rparr>,
                 tr_clear = True,
                 tr_added =
                   [\<lparr>cf_id = uf_id uf, cf_name = f_name (uf_file uf), cf_type = fileType,
                     cf_size = f_size (uf_file uf), cf_url = d_objectURL d,
                     cf_uploadDate = d_date d, cf_thumbnail = None\<rparr>],
                 tr_toasts =
                   [\<lparr>t_title = ''Upload Complete'',
                     t_description =
                       f_name (uf_file uf) @ js '' has been uploaded successfully.'',
                     t_variant = None\<rparr>]\<rparr>
            | None \<Rightarrow>
                \<lparr>tr_entry = uf\<lparr>uf_progress := 100, uf_status := Completed\<rparr>,
                 tr_clear = True, tr_added = [], tr_toasts = []\<rparr>)
         else
           \<lparr>tr_entry = uf\<lparr>uf_progress := newProgress\<rparr>,
            tr_clear = False, tr_added = [], tr_toasts = []\<rparr>)
      else \<lparr>tr_entry = uf, tr_clear = False, tr_added = [], tr_toasts = []\<rparr>)"

text \<open>
  \<^verbatim>\<open>prev.map(...)\<close> over the whole list: the entry at position \<open>k\<close> takes the draw
  \<open>env k\<close> when it matches.
\<close>

fun tick_all ::
  "(real \<Rightarrow> real) \<Rightarrow> string \<Rightarrow> (nat \<Rightarrow> draw) \<Rightarrow> nat \<Rightarrow> uploading_file list \<Rightarrow> tick_result list"
where
  "tick_all fl i env k [] = []"
| "tick_all fl i env k (uf # ufs) = tick_entry fl i (env k) uf # tick_all fl i env (Suc k) ufs"

text \<open>
  One firing of the interval with handle \<open>h\<close>. An interval that was never started or has
  been cleared does not fire: \<open>None\<close>. Otherwise the callback maps over \<^verbatim>\<open>uploadingFiles\<close>;
  the entries handed to \<^verbatim>\<open>addFile\<close> reach the catalog in the order of the calls, and
  \<^verbatim>\<open>clearInterval(interval)\<close> removes the handle.
\<close>

definition interval_tick ::
  "(real \<Rightarrow> real) \<Rightarrow> app_state \<Rightarrow> nat \<Rightarrow> (nat \<Rightarrow> draw) \<Rightarrow> app_state option"
where
  "interval_tick fl st h env =
     (case map_of (intervals st) h of
        None \<Rightarrow> None
      | Some i \<Rightarrow>
          (let rs = tick_all fl i env 0 (uploadingFiles st) in
           Some (st\<lparr>uploadingFiles := map tr_entry rs,
                    files := foldl addFile (files st) (concat (map tr_added rs)),
                    toasts := toasts st @ concat (map tr_toasts rs),
                    intervals :=
                      (if list_ex tr_clear rs
                       then filter (\<lambda>p. fst p \<noteq> h) (intervals st)
                       else intervals st)\<rparr>)))"

text \<open>\<^verbatim>\<open>simulateUpload\<close>: \<^verbatim>\<open>setInterval\<close> starts an interval under a fresh handle.\<close>

definition simulateUpload :: "app_state \<Rightarrow> uploading_file \<Rightarrow> app_state" where
  "simulateUpload st uploadingFile =
     st\<lparr>intervals := intervals st @ [(nextInterval st, uf_id uploadingFile)],
        nextInterval := Suc (nextInterval st)\<rparr>"

text \<open>
  \<^verbatim>\<open>handleFiles\<close>. The id of the \<open>k\<close>-th valid file is the string
  \<^verbatim>\<open>Math.random().toString(36).substr(2, 9)\<close>, a draw of the environment: \<open>ids k\<close>.
\<close>

fun newUploadingFiles :: "(nat \<Rightarrow> string) \<Rightarrow> nat \<Rightarrow> js_file list \<Rightarrow> uploading_file list" where
  "newUploadingFiles ids k [] = []"
| "newUploadingFiles ids k (file # rest) =
     \<lparr>uf_file = file, uf_progress = 0, uf_status = Uploading, uf_id = ids k\<rparr>
       # newUploadingFiles ids (Suc k) rest"

definition handleFiles :: "app_state \<Rightarrow> js_file list \<Rightarrow> (nat \<Rightarrow> string) \<Rightarrow> app_state" where
  "handleFiles st fileArray ids =
     (let validFiles = filter (\<lambda>file. fst (validFile file)) fileArray;
          new = newUploadingFiles ids 0 validFiles;
          st1 = st\<lparr>uploadingFiles := uploadingFiles st @ new,
                   toasts := toasts st @ concat (map (\<lambda>file. snd (validFile file)) fileArray)\<rparr>
      in foldl simulateUpload st1 new)"

text \<open>The upload page's own \<^verbatim>\<open>removeFile\<close> (the X button of a progress row).\<close>

definition removeFile_UploadPage :: "app_state \<Rightarrow> string \<Rightarrow> app_state" where
  "removeFile_UploadPage st i =
     st\<lparr>uploadingFiles := filter (\<lambda>uf. uf_id uf \<noteq> i) (uploadingFiles st)\<rparr>"

section \<open>The files page\<close>

text \<open>
  A call of the context's \<^verbatim>\<open>removeFile(id)\<close>: \<^verbatim>\<open>setFiles\<close> with the filtering updater, and
  nothing else.
\<close>

definition removeFile_call :: "app_state \<Rightarrow> string \<Rightarrow> app_state" where
  "removeFile_call st i = st\<lparr>files := removeFile (files st) i\<rparr>"

text \<open>
  \<^verbatim>\<open>deleteFile\<close>: \<^verbatim>\<open>removeFile(file.id)\<close>, then \<^verbatim>\<open>URL.revokeObjectURL(file.url)\<close>, then a
  toast.
\<close>

definition deleteFile :: "app_state \<Rightarrow> cloud_file \<Rightarrow> app_state" where
  "deleteFile st file =
     (removeFile_call st (cf_id file))
       \<lparr>revoked := revoked st @ [cf_url file],
        toasts := toasts st @
          [\<lparr>t_title = ''File Deleted'',
            t_description = cf_name file @ js '' has been removed'',
            t_variant = None\<rparr>]\<rparr>"

text \<open>\<^verbatim>\<open>s.includes(t)\<close>: \<open>t\<close> occurs in \<open>s\<close> as a contiguous run.\<close>

fun js_includes :: "js_string \<Rightarrow> js_string \<Rightarrow> bool" where
  "js_includes [] t = (t = [])"
| "js_includes (c # s) t = (prefix t (c # s) \<or> js_includes s t)"

text \<open>\<^verbatim>\<open>FilterType\<close> is \<^verbatim>\<open>'all'\<close> or one of the three type names.\<close>

datatype filter_type = FilterAll | FilterOnly file_type

text \<open>
  \<^verbatim>\<open>filteredFiles\<close>. \<^verbatim>\<open>String.prototype.toLowerCase\<close> is a built-in of the language with
  the case tables of Unicode behind it: the view takes it as the parameter \<open>toLowerCase\<close>.
\<close>

definition filteredFiles ::
  "(js_string \<Rightarrow> js_string) \<Rightarrow> cloud_file list \<Rightarrow> js_string \<Rightarrow> filter_type \<Rightarrow> cloud_file list"
where
  "filteredFiles toLowerCase fs searchTerm filterType =
     filter (\<lambda>file.
        let matchesSearch = js_includes (toLowerCase (cf_name file)) (toLowerCase searchTerm);
            matchesFilter = (filterType = FilterAll \<or> FilterOnly (cf_type file) = filterType)
        in matchesSearch \<and> matchesFilter) fs"

text \<open>
  What \<^verbatim>\<open>toLowerCase\<close> does on ASCII text: the letters A to Z (code units 65 to 90) move to
  a to z, and every other code unit stays. \<open>lowers_ascii\<close> says of a case mapping that it
  does this on every string of ASCII code units; the built-in does.
\<close>

definition ascii_lower_unit :: "nat \<Rightarrow> nat" where
  "ascii_lower_unit u = (if 65 \<le> u \<and> u \<le> 90 then u + 32 else u)"

definition ascii_lower :: "js_string \<Rightarrow> js_string" where
  "ascii_lower s = map ascii_lower_unit s"

definition is_ascii :: "js_string \<Rightarrow> bool" where
  "is_ascii s = list_all (\<lambda>u. u < 128) s"

definition lowers_ascii :: "(js_string \<Rightarrow> js_string) \<Rightarrow> bool" where
  "lowers_ascii lc \<longleftrightarrow> (\<forall>s. is_ascii s \<longrightarrow> lc s = ascii_lower s)"

text \<open>
  Two code units are the same up to the case of an ASCII letter: they are equal, or one is
  a capital letter and the other is its small letter.
\<close>

definition same_letter :: "nat \<Rightarrow> nat \<Rightarrow> bool" where
  "same_letter c d \<longleftrightarrow>
     c = d \<or> (65 \<le> c \<and> c \<le> 90 \<and> d = c + 32) \<or> (65 \<le> d \<and> d \<le> 90 \<and> c = d + 32)"

section \<open>Sessions\<close>

text \<open>
  What can happen in a session, each event with what it takes from the environment: a batch
  handed to \<^verbatim>\<open>handleFiles\<close>, one firing of an interval, a click on the X of a progress row,
  a click on the delete button of a catalog entry.
\<close>

datatype event =
    HandleFiles "js_file list" "nat \<Rightarrow> string"
  | IntervalTick nat "nat \<Rightarrow> draw"
  | CancelUpload string
  | DeleteFile cloud_file

fun step :: "(real \<Rightarrow> real) \<Rightarrow> app_state \<Rightarrow> event \<Rightarrow> app_state" where
  "step fl st (HandleFiles fileArray ids) = handleFiles st fileArray ids"
| "step fl st (IntervalTick h env) =
     (case interval_tick fl st h env of None \<Rightarrow> st | Some st' \<Rightarrow> st')"
| "step fl st (CancelUpload i) = removeFile_UploadPage st i"
| "step fl st (DeleteFile file) = deleteFile st file"

definition run :: "(real \<Rightarrow> real) \<Rightarrow> app_state \<Rightarrow> event list \<Rightarrow> app_state" where
  "run fl st evs = foldl (step fl) st evs"

text \<open>\<^verbatim>\<open>Math.random()\<close> returns a number from 0 (included) to 1 (excluded).\<close>

fun good_event :: "event \<Rightarrow> bool" where
  "good_event (IntervalTick h env) = (\<forall>k. 0 \<le> d_random (env k) \<and> d_random (env k) < 1)"
| "good_event _ = True"

section \<open>Bookkeeping of a session\<close>

text \<open>
  The staging entries an event creates, and the strings the id generator draws for them:
  \<^verbatim>\<open>handleFiles\<close> creates one entry for each valid file of its batch, and no other event
  creates any.
\<close>

fun created_by :: "event \<Rightarrow> uploading_file list" where
  "created_by (HandleFiles fileArray ids) =
     newUploadingFiles ids 0 (filter (\<lambda>file. fst (validFile file)) fileArray)"
| "created_by (IntervalTick h env) = []"
| "created_by (CancelUpload i) = []"
| "created_by (DeleteFile file) = []"

fun drawn :: "event \<Rightarrow> string list" where
  "drawn (HandleFiles fileArray ids) =
     map ids [0..<length (filter (\<lambda>file. fst (validFile file)) fileArray)]"
| "drawn (IntervalTick h env) = []"
| "drawn (CancelUpload i) = []"
| "drawn (DeleteFile file) = []"

definition all_created :: "event list \<Rightarrow> uploading_file list" where
  "all_created evs = concat (map created_by evs)"

definition drawn_ids :: "event list \<Rightarrow> string list" where
  "drawn_ids evs = concat (map drawn evs)"

text \<open>
  The catalog entries an event passes to \<^verbatim>\<open>addFile\<close> in a state, and all the entries passed
  to it in the course of a session, in the order of the calls.
\<close>

fun inserted_by :: "(real \<Rightarrow> real) \<Rightarrow> app_state \<Rightarrow> event \<Rightarrow> cloud_file list" where
  "inserted_by fl st (IntervalTick h env) =
     (case map_of (intervals st) h of
        None \<Rightarrow> []
      | Some i \<Rightarrow> concat (map tr_added (tick_all fl i env 0 (uploadingFiles st))))"
| "inserted_by fl st (HandleFiles fileArray ids) = []"
| "inserted_by fl st (CancelUpload i) = []"
| "inserted_by fl st (DeleteFile file) = []"

fun all_inserted :: "(real \<Rightarrow> real) \<Rightarrow> app_state \<Rightarrow> event list \<Rightarrow> cloud_file list" where
  "all_inserted fl st [] = []"
| "all_inserted fl st (ev # evs) = inserted_by fl st ev @ all_inserted fl (step fl st ev) evs"

section \<open>Invariants\<close>

text \<open>
  What holds of every entry of \<^verbatim>\<open>uploadingFiles\<close> in a session: its progress is a double,
  an entry that is uploading has its progress in \<open>[0, 100)\<close>, a completed one has progress
  100, the status \<^verbatim>\<open>'error'\<close> does not occur, and the type of its file is a supported one.
\<close>

definition entry_ok :: "(real \<Rightarrow> real) \<Rightarrow> uploading_file \<Rightarrow> bool" where
  "entry_ok fl uf \<longleftrightarrow>
     fl (uf_progress uf) = uf_progress uf
     \<and> getFileType (uf_file uf) \<noteq> None
     \<and> (case uf_status uf of
          Uploading \<Rightarrow> 0 \<le> uf_progress uf \<and> uf_progress uf < 100
        | Completed \<Rightarrow> uf_progress uf = 100
        | Error \<Rightarrow> False)"

text \<open>
  What holds of a state in a session whose drawn ids are pairwise distinct, where \<open>D\<close> is
  the set of ids drawn so far and \<open>H\<close> the list of entries passed to \<^verbatim>\<open>addFile\<close> so far: the
  ids of the staging entries are distinct, no two registered intervals close over the same
  id, the ids of \<open>H\<close> are distinct, all these ids are drawn ids, no registered interval
  closes over the id of an entry of \<open>H\<close> or of a completed staging entry, and the catalog is
  what deletions have left of \<open>H\<close>.
\<close>

definition session_inv ::
  "(real \<Rightarrow> real) \<Rightarrow> string set \<Rightarrow> cloud_file list \<Rightarrow> app_state \<Rightarrow> bool"
where
  "session_inv fl D H st \<longleftrightarrow>
     list_all (entry_ok fl) (uploadingFiles st)
     \<and> distinct (map uf_id (uploadingFiles st))
     \<and> uf_id ` set (uploadingFiles st) \<subseteq> D
     \<and> distinct (map snd (intervals st))
     \<and> snd ` set (intervals st) \<subseteq> D
     \<and> distinct (map cf_id H)
     \<and> cf_id ` set H \<subseteq> D
     \<and> cf_id ` set H \<inter> snd ` set (intervals st) = {}
     \<and> subseq (files st) H
     \<and> list_all (\<lambda>uf. uf_status uf = Completed \<longrightarrow> uf_id uf \<notin> snd ` set (intervals st))
          (uploadingFiles st)"

section \<open>Sample data\<close>

text \<open>Concrete inputs, for the statements that are evaluated at an explicit input.\<close>

definition sample_video :: cloud_file where
  "sample_video = \<lparr>cf_id = ''k3x9a0b1c'', cf_name = js ''clip.mp4'', cf_type = Video,
     cf_size = 10485760, cf_url = ''blob:1'', cf_uploadDate = 0, cf_thumbnail = None\<rparr>"

definition sample_video_twin :: cloud_file where
  "sample_video_twin = \<lparr>cf_id = ''k3x9a0b1c'', cf_name = js ''other.mp4'', cf_type = Video,
     cf_size = 512, cf_url = ''blob:9'', cf_uploadDate = 5, cf_thumbnail = None\<rparr>"

definition sample_pdf :: cloud_file where
  "sample_pdf = \<lparr>cf_id = ''p7q2r5s8t'', cf_name = js ''Report.pdf'', cf_type = Pdf,
     cf_size = 2048, cf_url = ''blob:2'', cf_uploadDate = 1, cf_thumbnail = None\<rparr>"

definition sample_mp4 :: js_file where
  "sample_mp4 = \<lparr>f_name = js ''clip.mp4'', f_type = ''video/mp4'', f_size = 10485760\<rparr>"

definition sample_mp3 :: js_file where
  "sample_mp3 = \<lparr>f_name = js ''song.mp3'', f_type = ''audio/mpeg'', f_size = 4194304\<rparr>"

definition sample_zip :: js_file where
  "sample_zip = \<lparr>f_name = js ''big.zip'', f_type = ''application/zip'', f_size = 62914560\<rparr>"

definition sample_videos :: js_file where
  "sample_videos = \<lparr>f_name = js ''reel.bin'', f_type = ''videos/mp4'', f_size = 1024\<rparr>"

text \<open>
  A case mapping that lowers ASCII text and has two more values of the built-in: the
  capital sigma (code unit 931) becomes the final small sigma (962) at the end of a word and
  the small sigma (963) inside one, so \<^verbatim>\<open>toLowerCase\<close> takes the code units 65, 931 to
  97, 962 and the code units 65, 931, 66 to 97, 963, 98. And a catalog entry whose name is
  the second of these strings.
\<close>

definition sigma_case :: "js_string \<Rightarrow> js_string" where
  "sigma_case s =
     (if s = [65, 931] then [97, 962]
      else if s = [65, 931, 66] then [97, 963, 98]
      else ascii_lower s)"

definition sample_sigma :: cloud_file where
  "sample_sigma = \<lparr>cf_id = ''s5g1m4a7z'', cf_name = [65, 931, 66], cf_type = Pdf,
     cf_size = 1024, cf_url = ''blob:4'', cf_uploadDate = 3, cf_thumbnail = None\<rparr>"

text \<open>
  An environment whose every draw of \<^verbatim>\<open>Math.random()\<close> is 0.75. Each step of the progress
  is then 11.25, and every product and sum of the sample sessions is a multiple of 1/4
  below 128, which a double holds exactly: \<open>exact\<close>, which rounds nothing, is the rounding
  on these values.
\<close>

definition sample_env :: "nat \<Rightarrow> draw" where
  "sample_env k = \<lparr>d_random = 3 / 4, d_objectURL = ''blob:1'', d_date = 0\<rparr>"

definition exact :: "real \<Rightarrow> real" where
  "exact x = x"

text \<open>Two id generators, each drawing one string every time.\<close>

definition sample_ids :: "nat \<Rightarrow> string" where
  "sample_ids k = ''k3x9a0b1c''"

definition other_ids :: "nat \<Rightarrow> string" where
  "other_ids k = ''p7q2r5s8t''"

text \<open>
  One file handed to \<^verbatim>\<open>handleFiles\<close>, then eight firings of its interval: the progress
  stands at 90. The ninth firing completes the entry and leaves \<open>sample_final\<close>.
\<close>

definition sample_session :: "event list" where
  "sample_session =
     [HandleFiles [sample_mp4] sample_ids,
      IntervalTick 0 sample_env, IntervalTick 0 sample_env, IntervalTick 0 sample_env,
      IntervalTick 0 sample_env, IntervalTick 0 sample_env, IntervalTick 0 sample_env,
      IntervalTick 0 sample_env, IntervalTick 0 sample_env]"

definition sample_final :: app_state where
  "sample_final =
     \<lparr>uploadingFiles =
        [\<lparr>uf_file = sample_mp4, uf_progress = 100, uf_status = Completed,
          uf_id = ''k3x9a0b1c''\<rparr>],
      files = [sample_video], intervals = [], nextInterval = 1,
      toasts = [\<lparr>t_title = ''Upload Complete'',
                 t_description = js ''clip.mp4'' @ js '' has been uploaded successfully.'',
                 t_variant = None\<rparr>],
      revoked = []\<rparr>"

text \<open>One file handed to \<^verbatim>\<open>handleFiles\<close>, then the X of its progress row.\<close>

definition sample_cancelled :: app_state where
  "sample_cancelled =
     run exact init_state [HandleFiles [sample_mp4] sample_ids, CancelUpload ''k3x9a0b1c'']"

text \<open>
  Two files handed to \<^verbatim>\<open>handleFiles\<close> in one batch, with the same string drawn for both ids,
  then nine firings of the first of their two intervals.
\<close>

definition sample_twins :: "event list" where
  "sample_twins =
     [HandleFiles [sample_mp4, sample_mp3] sample_ids,
      IntervalTick 0 sample_env, IntervalTick 0 sample_env, IntervalTick 0 sample_env,
      IntervalTick 0 sample_env, IntervalTick 0 sample_env, IntervalTick 0 sample_env,
      IntervalTick 0 sample_env, IntervalTick 0 sample_env, IntervalTick 0 sample_env]"

section \<open>Lemmas on the catalog and the validation\<close>

lemma count_list_filter:
  "count_list (filter P xs) x = (if P x then count_list xs x else 0)"
  by (induction xs) auto

lemma foldl_addFile: "foldl addFile fs cs = fs @ cs"
  by (induction cs arbitrary: fs) (simp_all add: addFile_def)

lemma getFile_removeFile: "getFile (removeFile fs i) i = None"
  by (simp add: getFile_def removeFile_def find_None_iff)

lemma removeFile_absent: "i \<notin> cf_id ` set fs \<Longrightarrow> removeFile fs i = fs"
  unfolding removeFile_def by (rule filter_True) auto

lemma removeFile_idem: "removeFile (removeFile fs i) i = removeFile fs i"
  by (simp add: removeFile_def)

lemma filter_distinct_key:
  "distinct (map k xs) \<Longrightarrow> x \<in> set xs \<Longrightarrow> filter (\<lambda>y. k y \<noteq> k x) xs = remove1 x xs"
proof (induction xs)
  case Nil
  then show ?case by simp
next
  case (Cons a xs)
  show ?case
  proof (cases "a = x")
    case True
    have "\<forall>y\<in>set xs. k y \<noteq> k x"
      using Cons.prems(1) True by (auto simp: image_iff)
    then have "filter (\<lambda>y. k y \<noteq> k x) xs = xs"
      by (simp add: filter_id_conv)
    with True show ?thesis by simp
  next
    case False
    with Cons.prems have "x \<in> set xs" by simp
    moreover from this Cons.prems(1) have "k a \<noteq> k x" by force
    ultimately show ?thesis using Cons False by simp
  qed
qed

lemma deleteFile_url_gone:
  assumes "distinct (map cf_url (files st))" and "f \<in> set (files st)"
  shows "cf_url f \<notin> cf_url ` set (files (deleteFile st f))"
proof
  assume "cf_url f \<in> cf_url ` set (files (deleteFile st f))"
  then obtain g where g: "g \<in> set (files st)" "cf_id g \<noteq> cf_id f" "cf_url g = cf_url f"
    by (auto simp: deleteFile_def removeFile_call_def removeFile_def)
  from assms(1) have "inj_on cf_url (set (files st))"
    by (simp add: distinct_map)
  with g(1,3) assms(2) have "g = f"
    by (simp add: inj_on_def)
  with g(2) show False
    by simp
qed

lemma prefix_video_audio:
  "prefix ''video/'' t \<Longrightarrow> \<not> prefix ''audio/'' t \<and> t \<noteq> ''application/pdf''"
  by (auto simp: prefix_def)

lemma prefix_audio_pdf: "prefix ''audio/'' t \<Longrightarrow> t \<noteq> ''application/pdf''"
  by (auto simp: prefix_def)

lemma validFile_type: "fst (validFile f) \<Longrightarrow> getFileType f \<noteq> None"
  by (auto simp: validFile_def split: option.splits)

section \<open>Lemmas on the search\<close>

lemma js_includes_sublist: "js_includes s t \<longleftrightarrow> sublist t s"
  by (induction s) (auto simp: sublist_Cons_right)

lemma ascii_lower_unit_eq: "ascii_lower_unit c = ascii_lower_unit d \<longleftrightarrow> same_letter c d"
  by (auto simp: ascii_lower_unit_def same_letter_def)

lemma ascii_lower_eq: "ascii_lower s = ascii_lower t \<longleftrightarrow> list_all2 same_letter s t"
proof (induction s arbitrary: t)
  case Nil
  then show ?case by (auto simp: ascii_lower_def)
next
  case (Cons c s)
  then show ?case
    by (cases t) (auto simp: ascii_lower_def ascii_lower_unit_eq)
qed

lemma sublist_map_iff:
  "sublist (map f t) (map f n) \<longleftrightarrow> (\<exists>s. sublist s n \<and> map f s = map f t)"
proof
  assume "sublist (map f t) (map f n)"
  then obtain ps ss where "map f n = ps @ map f t @ ss"
    by (auto simp: sublist_def)
  then obtain n1 n2 n3 where "n = n1 @ n2 @ n3" and "map f n2 = map f t"
    by (auto simp: map_eq_append_conv append_eq_map_conv)
  then show "\<exists>s. sublist s n \<and> map f s = map f t"
    by (auto simp: sublist_def)
next
  assume "\<exists>s. sublist s n \<and> map f s = map f t"
  then obtain s where "sublist s n" and e: "map f s = map f t"
    by blast
  then obtain ps ss where "n = ps @ s @ ss"
    by (auto simp: sublist_def)
  then have "map f n = map f ps @ map f s @ map f ss"
    by simp
  then have "sublist (map f s) (map f n)"
    unfolding sublist_def by blast
  with e show "sublist (map f t) (map f n)"
    by simp
qed

lemma ascii_match:
  assumes "lowers_ascii lc" and "is_ascii t" and "is_ascii n"
  shows "js_includes (lc n) (lc t) \<longleftrightarrow> (\<exists>s. sublist s n \<and> list_all2 same_letter s t)"
proof -
  from assms have "lc n = ascii_lower n" and "lc t = ascii_lower t"
    by (simp_all add: lowers_ascii_def)
  then have "js_includes (lc n) (lc t) \<longleftrightarrow> sublist (ascii_lower t) (ascii_lower n)"
    by (simp add: js_includes_sublist)
  also have "\<dots> \<longleftrightarrow> (\<exists>s. sublist s n \<and> ascii_lower s = ascii_lower t)"
    unfolding ascii_lower_def by (rule sublist_map_iff)
  finally show ?thesis
    by (simp add: ascii_lower_eq)
qed

lemma lowers_ascii_Nil: "lowers_ascii lc \<Longrightarrow> lc [] = []"
  by (simp add: lowers_ascii_def is_ascii_def ascii_lower_def)

lemma lowers_ascii_ascii_lower: "lowers_ascii ascii_lower"
  by (simp add: lowers_ascii_def)

lemma lowers_ascii_sigma_case: "lowers_ascii sigma_case"
  by (auto simp: lowers_ascii_def sigma_case_def is_ascii_def)

lemma unitwise_match:
  assumes "lc t = map l t" and "lc n = map l n"
  shows "js_includes (lc n) (lc t) \<longleftrightarrow> (\<exists>s. sublist s n \<and> map l s = map l t)"
  using assms by (simp add: js_includes_sublist sublist_map_iff)

section \<open>Lemmas on the interval callback\<close>

lemma length_tick_all [simp]: "length (tick_all fl i env k ufs) = length ufs"
  by (induction ufs arbitrary: k) simp_all

lemma nth_tick_all:
  "n < length ufs \<Longrightarrow> tick_all fl i env k ufs ! n = tick_entry fl i (env (k + n)) (ufs ! n)"
proof (induction ufs arbitrary: k n)
  case Nil
  then show ?case by simp
next
  case (Cons uf ufs)
  show ?case
  proof (cases n)
    case 0
    then show ?thesis by simp
  next
    case (Suc m)
    with Cons.prems have "m < length ufs" by simp
    from Cons.IH [OF this, of "Suc k"] Suc show ?thesis by simp
  qed
qed

lemma tick_entry_id [simp]: "uf_id (tr_entry (tick_entry fl i d uf)) = uf_id uf"
  by (simp add: tick_entry_def Let_def split: option.split)

lemma tick_entry_file [simp]: "uf_file (tr_entry (tick_entry fl i d uf)) = uf_file uf"
  by (simp add: tick_entry_def Let_def split: option.split)

lemma tick_entry_other:
  "uf_id uf \<noteq> i \<Longrightarrow>
     tick_entry fl i d uf = \<lparr>tr_entry = uf, tr_clear = False, tr_added = [], tr_toasts = []\<rparr>"
  by (simp add: tick_entry_def)

lemma rounding_step:
  assumes "rounding fl" and "0 \<le> r" and "fl p = p"
  shows "p \<le> fl (p + fl (r * 15))"
proof -
  from assms(1) have mono: "\<And>x y. x \<le> y \<Longrightarrow> fl x \<le> fl y" and z: "fl 0 = 0"
    by (simp_all add: rounding_def)
  from assms(2) have "fl 0 \<le> fl (r * 15)"
    by (intro mono) simp
  with z have "p \<le> p + fl (r * 15)"
    by simp
  then have "fl p \<le> fl (p + fl (r * 15))"
    by (rule mono)
  with assms(3) show ?thesis
    by simp
qed

lemma tick_entry_ok:
  assumes "rounding fl" and "0 \<le> d_random d" and "entry_ok fl uf"
  shows "entry_ok fl (tr_entry (tick_entry fl i d uf))"
proof -
  from assms(1) have idem: "\<And>x. fl (fl x) = fl x" and h: "fl 100 = 100"
    by (simp_all add: rounding_def)
  from assms(3) have p: "fl (uf_progress uf) = uf_progress uf"
    by (simp add: entry_ok_def)
  from assms(3) have nonneg: "0 \<le> uf_progress uf"
    by (auto simp: entry_ok_def split: upload_status.splits)
  note st = rounding_step [OF assms(1,2) p]
  show ?thesis
  proof (cases "uf_id uf = i")
    case False
    with assms(3) show ?thesis by (simp add: tick_entry_other)
  next
    case True
    show ?thesis
    proof (cases "100 \<le> fl (uf_progress uf + fl (d_random d * 15))")
      case c: True
      with True assms(3) h show ?thesis
        by (auto simp: tick_entry_def entry_ok_def Let_def split: option.split)
    next
      case c: False
      then have m: "min (fl (uf_progress uf + fl (d_random d * 15))) 100
                      = fl (uf_progress uf + fl (d_random d * 15))"
        by simp
      from c st have "uf_progress uf < 100"
        by simp
      with assms(3) have u: "uf_status uf = Uploading"
        by (auto simp: entry_ok_def split: upload_status.splits)
      from True c m u assms(3) st nonneg idem show ?thesis
        by (simp add: tick_entry_def entry_ok_def Let_def)
    qed
  qed
qed

lemma tick_entry_mono:
  assumes "rounding fl" and "0 \<le> d_random d" and "entry_ok fl uf"
  shows "uf_progress uf \<le> uf_progress (tr_entry (tick_entry fl i d uf))"
proof -
  from assms(3) have p: "fl (uf_progress uf) = uf_progress uf"
    and le: "uf_progress uf \<le> 100"
    by (auto simp: entry_ok_def split: upload_status.splits)
  from rounding_step [OF assms(1,2) p] le show ?thesis
    by (simp add: tick_entry_def Let_def split: option.split)
qed

lemma tick_entry_added:
  "c \<in> set (tr_added (tick_entry fl i d uf)) \<Longrightarrow>
     cf_id c = uf_id uf \<and> uf_id uf = i
     \<and> cf_name c = f_name (uf_file uf) \<and> cf_size c = f_size (uf_file uf)
     \<and> getFileType (uf_file uf) = Some (cf_type c)
     \<and> cf_url c = d_objectURL d \<and> cf_uploadDate c = d_date d
     \<and> tr_clear (tick_entry fl i d uf)
     \<and> uf_progress (tr_entry (tick_entry fl i d uf)) = 100
     \<and> uf_status (tr_entry (tick_entry fl i d uf)) = Completed"
  by (auto simp: tick_entry_def Let_def split: option.splits if_splits)

lemma tick_entry_completes:
  assumes "uf_status uf = Uploading"
      and "uf_status (tr_entry (tick_entry fl i d uf)) = Completed"
      and "getFileType (uf_file uf) = Some ft"
  shows "tr_clear (tick_entry fl i d uf)
     \<and> uf_progress (tr_entry (tick_entry fl i d uf)) = 100
     \<and> tr_added (tick_entry fl i d uf) =
         [\<lparr>cf_id = uf_id uf, cf_name = f_name (uf_file uf), cf_type = ft,
           cf_size = f_size (uf_file uf), cf_url = d_objectURL d,
           cf_uploadDate = d_date d, cf_thumbnail = None\<rparr>]"
  using assms by (auto simp: tick_entry_def Let_def split: option.splits if_splits)

lemma tick_entry_clear_Completed:
  "tr_clear (tick_entry fl i d uf) \<Longrightarrow>
     uf_id uf = i \<and> uf_status (tr_entry (tick_entry fl i d uf)) = Completed"
  by (auto simp: tick_entry_def Let_def split: option.splits if_splits)

lemma tick_entry_status:
  "uf_status (tr_entry (tick_entry fl i d uf)) = Completed \<Longrightarrow> uf_status uf \<noteq> Completed \<Longrightarrow>
     tr_clear (tick_entry fl i d uf) \<and> uf_id uf = i"
  by (auto simp: tick_entry_def Let_def split: option.splits if_splits)

lemma tick_all_added:
  assumes "c \<in> set (concat (map tr_added (tick_all fl i env k ufs)))"
  shows "\<exists>n < length ufs. c \<in> set (tr_added (tick_entry fl i (env (k + n)) (ufs ! n)))"
proof -
  from assms obtain r where r: "r \<in> set (tick_all fl i env k ufs)" and c: "c \<in> set (tr_added r)"
    by auto
  from r obtain n where n: "n < length ufs" and "r = tick_all fl i env k ufs ! n"
    by (auto simp: in_set_conv_nth)
  with c show ?thesis by (auto simp: nth_tick_all)
qed

lemma tick_all_added_nth:
  assumes "n < length ufs"
  shows "set (tr_added (tick_entry fl i (env (k + n)) (ufs ! n)))
           \<subseteq> set (concat (map tr_added (tick_all fl i env k ufs)))"
proof -
  from assms have "tick_all fl i env k ufs ! n \<in> set (tick_all fl i env k ufs)"
    by simp
  with assms show ?thesis
    by (auto simp: nth_tick_all)
qed

lemma tick_all_ok:
  "rounding fl \<Longrightarrow> \<forall>k. 0 \<le> d_random (env k) \<Longrightarrow> list_all (entry_ok fl) ufs \<Longrightarrow>
     list_all (entry_ok fl) (map tr_entry (tick_all fl i env k ufs))"
  by (induction ufs arbitrary: k) (simp_all add: tick_entry_ok)

lemma tick_all_ids: "map uf_id (map tr_entry (tick_all fl i env k ufs)) = map uf_id ufs"
  by (induction ufs arbitrary: k) simp_all

lemma tick_all_absent:
  "i \<notin> uf_id ` set ufs \<Longrightarrow>
     map tr_entry (tick_all fl i env k ufs) = ufs
     \<and> concat (map tr_added (tick_all fl i env k ufs)) = []
     \<and> \<not> list_ex tr_clear (tick_all fl i env k ufs)"
  by (induction ufs arbitrary: k) (auto simp: tick_entry_other)

lemma interval_tick_Some:
  "interval_tick fl st h env = Some st' \<Longrightarrow>
     \<exists>i. map_of (intervals st) h = Some i
        \<and> uploadingFiles st' = map tr_entry (tick_all fl i env 0 (uploadingFiles st))
        \<and> files st' = files st @ concat (map tr_added (tick_all fl i env 0 (uploadingFiles st)))
        \<and> intervals st' =
             (if list_ex tr_clear (tick_all fl i env 0 (uploadingFiles st))
              then filter (\<lambda>p. fst p \<noteq> h) (intervals st) else intervals st)"
  by (auto simp: interval_tick_def Let_def foldl_addFile split: option.splits)

text \<open>
  The rounding decides a completion at the edge. With progress 90 and the draw
  6004799503160661 / 2^53 (the double written 0.6666666666666666) the exact product is
  below 10, and in doubles it is 10: under a rounding that says so the entry completes.
\<close>

lemma tick_entry_rounded_product:
  assumes "fl (6004799503160661 / 2 ^ 53 * 15) = 10" and "fl 100 = 100"
  shows "uf_status (tr_entry (tick_entry fl ''a''
           \<lparr>d_random = 6004799503160661 / 2 ^ 53, d_objectURL = u, d_date = t\<rparr>
           \<lparr>uf_file = f, uf_progress = 90, uf_status = Uploading, uf_id = ''a''\<rparr>)) = Completed"
  using assms by (simp add: tick_entry_def Let_def split: option.split)

section \<open>Lemmas on the handlers\<close>

lemma uploadingFiles_simulateUpload:
  "uploadingFiles (foldl simulateUpload st new) = uploadingFiles st"
  by (induction new arbitrary: st) (simp_all add: simulateUpload_def)

lemma files_simulateUpload: "files (foldl simulateUpload st new) = files st"
  by (induction new arbitrary: st) (simp_all add: simulateUpload_def)

lemma intervals_simulateUpload:
  "map snd (intervals (foldl simulateUpload st new)) = map snd (intervals st) @ map uf_id new"
  by (induction new arbitrary: st) (simp_all add: simulateUpload_def)

lemma newUploadingFiles_ok:
  "rounding fl \<Longrightarrow> list_all (\<lambda>f. getFileType f \<noteq> None) fs \<Longrightarrow>
     list_all (entry_ok fl) (newUploadingFiles ids k fs)"
  by (induction fs arbitrary: k) (simp_all add: entry_ok_def rounding_def)

lemma newUploadingFiles_Uploading:
  "list_all (\<lambda>uf. uf_status uf = Uploading) (newUploadingFiles ids k fs)"
  by (induction fs arbitrary: k) simp_all

lemma newUploadingFiles_ids:
  "map uf_id (newUploadingFiles ids k fs) = map ids [k..<k + length fs]"
proof (induction fs arbitrary: k)
  case Nil
  then show ?case by simp
next
  case (Cons f fs)
  have "[k..<k + length (f # fs)] = k # [Suc k..<Suc k + length fs]"
    by (subst upt_rec) simp
  with Cons.IH [of "Suc k"] show ?case
    by simp
qed

lemma created_by_ids: "map uf_id (created_by ev) = drawn ev"
  by (cases ev) (simp_all add: newUploadingFiles_ids)

lemma created_by_ok: "rounding fl \<Longrightarrow> list_all (entry_ok fl) (created_by ev)"
proof (cases ev)
  case (HandleFiles fs ids)
  assume r: "rounding fl"
  have "list_all (\<lambda>f. getFileType f \<noteq> None) (filter (\<lambda>f. fst (validFile f)) fs)"
    using validFile_type by (auto simp: list_all_iff)
  from newUploadingFiles_ok [OF r this] HandleFiles show ?thesis
    by simp
qed simp_all

lemma created_by_Uploading: "list_all (\<lambda>uf. uf_status uf = Uploading) (created_by ev)"
  by (cases ev) (simp_all add: newUploadingFiles_Uploading)

lemma handleFiles_uploadingFiles:
  "uploadingFiles (handleFiles st fs ids)
     = uploadingFiles st @ created_by (HandleFiles fs ids)"
  by (simp add: handleFiles_def Let_def uploadingFiles_simulateUpload)

lemma handleFiles_files: "files (handleFiles st fs ids) = files st"
  by (simp add: handleFiles_def Let_def files_simulateUpload)

lemma handleFiles_intervals:
  "map snd (intervals (handleFiles st fs ids))
     = map snd (intervals st) @ drawn (HandleFiles fs ids)"
  by (simp add: handleFiles_def Let_def intervals_simulateUpload newUploadingFiles_ids)

lemma run_snoc: "run fl st (evs @ [ev]) = step fl (run fl st evs) ev"
  by (simp add: run_def)

lemma run_Cons: "run fl st (ev # evs) = run fl (step fl st ev) evs"
  by (simp add: run_def)

lemma run_append: "run fl st (evs @ evs') = run fl (run fl st evs) evs'"
  by (simp add: run_def)

lemma all_inserted_snoc:
  "all_inserted fl st (evs @ [ev]) = all_inserted fl st evs @ inserted_by fl (run fl st evs) ev"
  by (induction evs arbitrary: st) (simp_all add: run_def)

lemma drawn_ids_snoc: "drawn_ids (evs @ [ev]) = drawn_ids evs @ drawn ev"
  by (simp add: drawn_ids_def)

lemma all_created_ids: "map uf_id (all_created evs) = drawn_ids evs"
  by (induction evs) (simp_all add: all_created_def drawn_ids_def created_by_ids)

lemma tick_all_added_one:
  "distinct (map uf_id ufs) \<Longrightarrow> length (concat (map tr_added (tick_all fl i env k ufs))) \<le> 1"
proof (induction ufs arbitrary: k)
  case Nil
  then show ?case by simp
next
  case (Cons uf ufs)
  show ?case
  proof (cases "uf_id uf = i")
    case True
    with Cons.prems have "i \<notin> uf_id ` set ufs"
      by auto
    from tick_all_absent [OF this]
    have "concat (map tr_added (tick_all fl i env (Suc k) ufs)) = []"
      by blast
    then have "length (concat (map tr_added (tick_all fl i env (Suc k) ufs))) = 0"
      by (simp only: list.size)
    moreover have "length (tr_added (tick_entry fl i (env k) uf)) \<le> 1"
      by (simp add: tick_entry_def Let_def split: option.split)
    ultimately show ?thesis
      by (simp del: concat_eq_Nil_conv length_0_conv)
  next
    case False
    with Cons show ?thesis
      by (simp add: tick_entry_other)
  qed
qed

lemma tick_all_added_id:
  "c \<in> set (concat (map tr_added (tick_all fl i env k ufs))) \<Longrightarrow>
     cf_id c = i \<and> list_ex tr_clear (tick_all fl i env k ufs)"
proof -
  assume a: "c \<in> set (concat (map tr_added (tick_all fl i env k ufs)))"
  from tick_all_added [OF a] obtain n where
    n: "n < length ufs" and c: "c \<in> set (tr_added (tick_entry fl i (env (k + n)) (ufs ! n)))"
    by blast
  from tick_entry_added [OF c] have i: "cf_id c = i"
    and clr: "tr_clear (tick_entry fl i (env (k + n)) (ufs ! n))"
    by simp_all
  from n have "tick_all fl i env k ufs ! n \<in> set (tick_all fl i env k ufs)"
    by simp
  with clr n have "list_ex tr_clear (tick_all fl i env k ufs)"
    by (auto simp: list_ex_iff nth_tick_all)
  with i show ?thesis
    by simp
qed

lemma distinct_snd_unique:
  assumes "distinct (map snd xs)" and "(a, i) \<in> set xs" and "(b, i) \<in> set xs"
  shows "a = b"
proof -
  from assms(1) have "inj_on snd (set xs)"
    by (simp add: distinct_map)
  from inj_onD [OF this, of "(a, i)" "(b, i)"] assms(2,3) have "(a, i) = (b, i)"
    by simp
  then show ?thesis
    by simp
qed

lemma cleared_id_gone:
  assumes "distinct (map snd xs)" and "map_of xs h = Some i"
  shows "i \<notin> snd ` set (filter (\<lambda>p. fst p \<noteq> h) xs)"
proof
  assume "i \<in> snd ` set (filter (\<lambda>p. fst p \<noteq> h) xs)"
  then obtain b where b: "(b, i) \<in> set xs" and ne: "b \<noteq> h"
    by auto
  from assms(2) have "(h, i) \<in> set xs"
    by (rule map_of_SomeD)
  from distinct_snd_unique [OF assms(1) b this] ne show False
    by simp
qed

section \<open>The invariant of a session\<close>

lemma distinct_short: "length xs \<le> 1 \<Longrightarrow> distinct (map f xs)"
  by (cases xs) auto

lemma session_inv_init: "session_inv fl D [] init_state"
  by (simp add: session_inv_def init_state_def)

lemma inv_handleFiles:
  assumes inv: "session_inv fl D H st"
      and r: "rounding fl"
      and d: "distinct (drawn (HandleFiles fs ids))"
      and n: "set (drawn (HandleFiles fs ids)) \<inter> D = {}"
  shows "session_inv fl (D \<union> set (drawn (HandleFiles fs ids))) H (handleFiles st fs ids)"
proof -
  let ?ev = "HandleFiles fs ids"
  let ?st' = "handleFiles st fs ids"
  let ?new = "created_by ?ev"
  from inv have ok: "list_all (entry_ok fl) (uploadingFiles st)"
    and du: "distinct (map uf_id (uploadingFiles st))"
    and su: "uf_id ` set (uploadingFiles st) \<subseteq> D"
    and di: "distinct (map snd (intervals st))"
    and si: "snd ` set (intervals st) \<subseteq> D"
    and dh: "distinct (map cf_id H)"
    and sh: "cf_id ` set H \<subseteq> D"
    and hi: "cf_id ` set H \<inter> snd ` set (intervals st) = {}"
    and sub: "subseq (files st) H"
    and co: "list_all (\<lambda>uf. uf_status uf = Completed \<longrightarrow> uf_id uf \<notin> snd ` set (intervals st))
               (uploadingFiles st)"
    by (simp_all add: session_inv_def)
  define new where "new = created_by ?ev"
  define dr where "dr = drawn ?ev"
  have ufs: "uploadingFiles ?st' = uploadingFiles st @ new"
    unfolding new_def by (rule handleFiles_uploadingFiles)
  have ids: "map uf_id new = dr"
    unfolding new_def dr_def by (rule created_by_ids)
  then have idset: "uf_id ` set new = set dr"
    by (metis list.set_map)
  have iv: "map snd (intervals ?st') = map snd (intervals st) @ dr"
    unfolding dr_def by (rule handleFiles_intervals)
  then have ivset: "snd ` set (intervals ?st') = snd ` set (intervals st) \<union> set dr"
    by (metis list.set_map set_append)
  from d n have d': "distinct dr" and n': "set dr \<inter> D = {}"
    by (simp_all add: dr_def)
  have oknew: "list_all (entry_ok fl) new"
    unfolding new_def by (rule created_by_ok [OF r])
  have upnew: "list_all (\<lambda>uf. uf_status uf = Uploading) new"
    unfolding new_def by (rule created_by_Uploading)
  have c1: "list_all (entry_ok fl) (uploadingFiles ?st')"
    using ok oknew by (simp add: ufs)
  have c2: "distinct (map uf_id (uploadingFiles ?st'))"
    using du d' su n' idset by (auto simp: ufs ids)
  have c3: "uf_id ` set (uploadingFiles ?st') \<subseteq> D \<union> set dr"
    using su idset by (auto simp: ufs)
  have c4: "distinct (map snd (intervals ?st'))"
    using di d' si n' by (auto simp: iv)
  have c5: "snd ` set (intervals ?st') \<subseteq> D \<union> set dr"
    using si by (auto simp: ivset)
  have c7: "cf_id ` set H \<subseteq> D \<union> set dr"
    using sh by auto
  have c8: "cf_id ` set H \<inter> snd ` set (intervals ?st') = {}"
    using hi sh n' by (auto simp: ivset)
  have c9: "subseq (files ?st') H"
    using sub by (simp add: handleFiles_files)
  have c10: "list_all (\<lambda>uf. uf_status uf = Completed \<longrightarrow> uf_id uf \<notin> snd ` set (intervals ?st'))
               (uploadingFiles ?st')"
  proof -
    have a: "list_all (\<lambda>uf. uf_status uf = Completed \<longrightarrow> uf_id uf \<notin> snd ` set (intervals ?st'))
               (uploadingFiles st)"
      using co su n' by (auto simp: list_all_iff ivset)
    have b: "list_all (\<lambda>uf. uf_status uf = Completed \<longrightarrow> uf_id uf \<notin> snd ` set (intervals ?st'))
               new"
      using upnew by (auto simp: list_all_iff)
    from a b show ?thesis
      by (simp add: ufs)
  qed
  from c1 c2 c3 c4 c5 dh c7 c8 c9 c10 show ?thesis
    unfolding session_inv_def dr_def by blast
qed

lemma inv_tick:
  assumes inv: "session_inv fl D H st"
      and r: "rounding fl"
      and g: "\<forall>k. 0 \<le> d_random (env k)"
      and t: "interval_tick fl st h env = Some st'"
  shows "session_inv fl D (H @ inserted_by fl st (IntervalTick h env)) st'"
proof -
  let ?ufs = "uploadingFiles st"
  from inv have ok: "list_all (entry_ok fl) ?ufs"
    and du: "distinct (map uf_id ?ufs)"
    and su: "uf_id ` set ?ufs \<subseteq> D"
    and di: "distinct (map snd (intervals st))"
    and si: "snd ` set (intervals st) \<subseteq> D"
    and dh: "distinct (map cf_id H)"
    and sh: "cf_id ` set H \<subseteq> D"
    and hi: "cf_id ` set H \<inter> snd ` set (intervals st) = {}"
    and sub: "subseq (files st) H"
    and co: "list_all (\<lambda>uf. uf_status uf = Completed \<longrightarrow> uf_id uf \<notin> snd ` set (intervals st)) ?ufs"
    by (simp_all add: session_inv_def)
  from interval_tick_Some [OF t] obtain i where
    act: "map_of (intervals st) h = Some i" and
    ufs': "uploadingFiles st' = map tr_entry (tick_all fl i env 0 ?ufs)" and
    fs': "files st' = files st @ concat (map tr_added (tick_all fl i env 0 ?ufs))" and
    iv: "intervals st' =
           (if list_ex tr_clear (tick_all fl i env 0 ?ufs)
            then filter (\<lambda>p. fst p \<noteq> h) (intervals st) else intervals st)"
    by blast
  let ?rs = "tick_all fl i env 0 ?ufs"
  let ?A = "concat (map tr_added ?rs)"
  have ins: "inserted_by fl st (IntervalTick h env) = ?A"
    by (simp add: act)
  from act have hin: "(h, i) \<in> set (intervals st)"
    by (rule map_of_SomeD)
  then have iin: "i \<in> snd ` set (intervals st)"
    by force
  with si have iD: "i \<in> D"
    by blast
  from iin hi have iH: "i \<notin> cf_id ` set H"
    by blast
  have ivsub: "set (intervals st') \<subseteq> set (intervals st)"
    by (auto simp: iv)
  have gone: "i \<notin> snd ` set (intervals st')" if "list_ex tr_clear ?rs"
    using that cleared_id_gone [OF di act] by (simp add: iv)
  have Aid: "cf_id c = i \<and> list_ex tr_clear ?rs" if "c \<in> set ?A" for c
    using that by (rule tick_all_added_id)
  have Aone: "length ?A \<le> 1"
    using du by (rule tick_all_added_one)
  have c1: "list_all (entry_ok fl) (uploadingFiles st')"
    using r g ok by (simp add: ufs' tick_all_ok)
  have idsame: "map uf_id (uploadingFiles st') = map uf_id ?ufs"
    by (simp only: ufs' tick_all_ids)
  have c2: "distinct (map uf_id (uploadingFiles st'))"
    using du by (simp only: idsame)
  have c3: "uf_id ` set (uploadingFiles st') \<subseteq> D"
    using su idsame by (metis list.set_map)
  have c4: "distinct (map snd (intervals st'))"
    using di by (simp add: iv distinct_map_filter)
  have c5: "snd ` set (intervals st') \<subseteq> D"
    using si ivsub by blast
  have dA: "distinct (map cf_id ?A)"
    using Aone by (rule distinct_short)
  have c6: "distinct (map cf_id (H @ ?A))"
    using dh dA Aid iH by auto
  have c7: "cf_id ` set (H @ ?A) \<subseteq> D"
    using sh Aid iD by auto
  have c8: "cf_id ` set (H @ ?A) \<inter> snd ` set (intervals st') = {}"
  proof -
    have "cf_id ` set H \<inter> snd ` set (intervals st') = {}"
      using hi ivsub by blast
    moreover have "cf_id c \<notin> snd ` set (intervals st')" if "c \<in> set ?A" for c
      using Aid [OF that] gone by simp
    ultimately show ?thesis
      by auto
  qed
  have c9: "subseq (files st' ) (H @ ?A)"
    using sub by (simp add: fs' list_emb_append_mono)
  have c10: "list_all (\<lambda>uf. uf_status uf = Completed \<longrightarrow> uf_id uf \<notin> snd ` set (intervals st'))
               (uploadingFiles st')"
    unfolding list_all_length
  proof (intro allI impI)
    fix n
    assume n': "n < length (uploadingFiles st')"
      and cst: "uf_status (uploadingFiles st' ! n) = Completed"
    from n' have n: "n < length ?ufs"
      by (simp add: ufs')
    then have nth': "uploadingFiles st' ! n = tr_entry (tick_entry fl i (env n) (?ufs ! n))"
      by (simp add: ufs' nth_tick_all)
    show "uf_id (uploadingFiles st' ! n) \<notin> snd ` set (intervals st')"
    proof (cases "uf_status (?ufs ! n) = Completed")
      case True
      with co n have "uf_id (?ufs ! n) \<notin> snd ` set (intervals st)"
        by (simp add: list_all_length)
      with ivsub show ?thesis
        by (auto simp: nth')
    next
      case False
      from cst have "uf_status (tr_entry (tick_entry fl i (env n) (?ufs ! n))) = Completed"
        by (simp add: nth')
      from tick_entry_status [OF this False]
      have clr: "tr_clear (tick_entry fl i (env n) (?ufs ! n))" and idn: "uf_id (?ufs ! n) = i"
        by simp_all
      from n have "?rs ! n \<in> set ?rs"
        by simp
      with clr n have "list_ex tr_clear ?rs"
        by (auto simp: list_ex_iff nth_tick_all)
      from gone [OF this] idn show ?thesis
        by (simp add: nth')
    qed
  qed
  from c1 c2 c3 c4 c5 c6 c7 c8 c9 c10 show ?thesis
    unfolding session_inv_def ins by blast
qed

lemma inv_cancel:
  assumes inv: "session_inv fl D H st"
  shows "session_inv fl D H (removeFile_UploadPage st i)"
  using inv
  by (auto simp: session_inv_def removeFile_UploadPage_def list_all_iff distinct_map_filter)

lemma inv_delete:
  assumes inv: "session_inv fl D H st"
  shows "session_inv fl D H (deleteFile st f)"
proof -
  from inv have sub: "subseq (files st) H"
    by (simp add: session_inv_def)
  have "subseq (removeFile (files st) (cf_id f)) (files st)"
    by (simp add: removeFile_def)
  with sub have "subseq (removeFile (files st) (cf_id f)) H"
    by (rule subseq_order.order_trans [rotated])
  with inv show ?thesis
    by (simp add: session_inv_def deleteFile_def removeFile_call_def)
qed

lemma inv_step:
  assumes inv: "session_inv fl D H st"
      and r: "rounding fl"
      and g: "good_event ev"
      and d: "distinct (drawn ev)"
      and n: "set (drawn ev) \<inter> D = {}"
  shows "session_inv fl (D \<union> set (drawn ev)) (H @ inserted_by fl st ev) (step fl st ev)"
proof (cases ev)
  case (HandleFiles fs ids)
  from inv_handleFiles [OF inv r] d n HandleFiles show ?thesis
    by simp
next
  case (IntervalTick h env)
  show ?thesis
  proof (cases "interval_tick fl st h env")
    case None
    then have "map_of (intervals st) h = None"
      by (simp add: interval_tick_def Let_def split: option.splits)
    with None IntervalTick inv show ?thesis
      by simp
  next
    case (Some st')
    from g IntervalTick have "\<forall>k. 0 \<le> d_random (env k)"
      by simp
    from inv_tick [OF inv r this Some] IntervalTick Some show ?thesis
      by simp
  qed
next
  case (CancelUpload i)
  with inv_cancel [OF inv] show ?thesis
    by simp
next
  case (DeleteFile f)
  with inv_delete [OF inv] show ?thesis
    by simp
qed

lemma inv_run:
  assumes "rounding fl" and "list_all good_event evs" and "distinct (drawn_ids evs)"
  shows "session_inv fl (set (drawn_ids evs)) (all_inserted fl init_state evs)
           (run fl init_state evs)"
  using assms(2,3)
proof (induction evs rule: rev_induct)
  case Nil
  then show ?case
    by (simp add: run_def drawn_ids_def session_inv_init)
next
  case (snoc ev evs)
  from snoc.prems have g: "list_all good_event evs" and ge: "good_event ev"
    by simp_all
  from snoc.prems(2) have d: "distinct (drawn_ids evs)" and de: "distinct (drawn ev)"
    and n: "set (drawn ev) \<inter> set (drawn_ids evs) = {}"
    by (auto simp: drawn_ids_snoc)
  from inv_step [OF snoc.IH [OF g d] assms(1) ge de n] show ?case
    by (simp add: run_snoc all_inserted_snoc drawn_ids_snoc Un_commute)
qed

section \<open>Lemmas on sessions\<close>

lemma step_ok:
  assumes "rounding fl" and "good_event ev" and "list_all (entry_ok fl) (uploadingFiles st)"
  shows "list_all (entry_ok fl) (uploadingFiles (step fl st ev))"
proof (cases ev)
  case (HandleFiles fs ids)
  with assms(3) created_by_ok [OF assms(1), of ev] show ?thesis
    by (simp add: handleFiles_uploadingFiles)
next
  case (IntervalTick h env)
  show ?thesis
  proof (cases "interval_tick fl st h env")
    case None
    with IntervalTick assms(3) show ?thesis by simp
  next
    case (Some st')
    from interval_tick_Some [OF Some] obtain i where
      "uploadingFiles st' = map tr_entry (tick_all fl i env 0 (uploadingFiles st))"
      by blast
    moreover from assms(2) IntervalTick have "\<forall>k. 0 \<le> d_random (env k)"
      by simp
    ultimately show ?thesis
      using IntervalTick Some assms(1,3) by (simp add: tick_all_ok)
  qed
next
  case (CancelUpload i)
  with assms(3) show ?thesis
    by (simp add: removeFile_UploadPage_def list_all_iff)
next
  case (DeleteFile f)
  with assms(3) show ?thesis
    by (simp add: deleteFile_def removeFile_call_def)
qed

lemma run_ok:
  "rounding fl \<Longrightarrow> list_all good_event evs \<Longrightarrow>
     list_all (entry_ok fl) (uploadingFiles (run fl init_state evs))"
proof (induction evs rule: rev_induct)
  case Nil
  then show ?case by (simp add: run_def init_state_def)
next
  case (snoc ev evs)
  then show ?case by (simp add: run_snoc step_ok)
qed

lemma entry_ok_bounds:
  "entry_ok fl uf \<Longrightarrow> 0 \<le> uf_progress uf \<and> uf_progress uf \<le> 100 \<and> uf_status uf \<noteq> Error"
  by (auto simp: entry_ok_def split: upload_status.splits)

lemma entry_ok_Completed: "entry_ok fl uf \<Longrightarrow> uf_status uf = Completed \<Longrightarrow> uf_progress uf = 100"
  by (simp add: entry_ok_def)

lemma drawn_ids_append: "drawn_ids (evs @ evs') = drawn_ids evs @ drawn_ids evs'"
  by (simp add: drawn_ids_def)

text \<open>
  An entry whose id no registered interval closes over is left as it is by every event
  but the removal of its own progress row.
\<close>

lemma step_keeps_entry:
  assumes "uf \<in> set (uploadingFiles st)"
      and "uf_id uf \<notin> snd ` set (intervals st)"
      and "ev \<noteq> CancelUpload (uf_id uf)"
  shows "uf \<in> set (uploadingFiles (step fl st ev))"
proof (cases ev)
  case (HandleFiles fs ids)
  with assms(1) show ?thesis
    by (simp add: handleFiles_uploadingFiles)
next
  case (IntervalTick h env)
  show ?thesis
  proof (cases "interval_tick fl st h env")
    case None
    with IntervalTick assms(1) show ?thesis by simp
  next
    case (Some st')
    from interval_tick_Some [OF Some] obtain i where
      act: "map_of (intervals st) h = Some i" and
      ufs': "uploadingFiles st' = map tr_entry (tick_all fl i env 0 (uploadingFiles st))"
      by blast
    from act have "(h, i) \<in> set (intervals st)"
      by (rule map_of_SomeD)
    then have "i \<in> snd ` set (intervals st)"
      by force
    with assms(2) have ne: "uf_id uf \<noteq> i"
      by blast
    from assms(1) obtain n where n: "n < length (uploadingFiles st)"
      and u: "uploadingFiles st ! n = uf"
      by (auto simp: in_set_conv_nth)
    from n have "uploadingFiles st' ! n = tr_entry (tick_entry fl i (env n) uf)"
      by (simp add: ufs' nth_tick_all u)
    with ne have "uploadingFiles st' ! n = uf"
      by (simp add: tick_entry_other)
    moreover from n have "n < length (uploadingFiles st')"
      by (simp add: ufs')
    ultimately have "uf \<in> set (uploadingFiles st')"
      by (metis nth_mem)
    with IntervalTick Some show ?thesis
      by simp
  qed
next
  case (CancelUpload i)
  with assms(1,3) show ?thesis
    by (simp add: removeFile_UploadPage_def)
next
  case (DeleteFile f)
  with assms(1) show ?thesis
    by (simp add: deleteFile_def removeFile_call_def)
qed

text \<open>
  Once an entry has left \<^verbatim>\<open>uploadingFiles\<close> through the page's \<^verbatim>\<open>removeFile\<close>, a firing
  of any interval puts no entry of that id into the catalog.
\<close>

lemma cancel_then_tick_adds_nothing:
  assumes "interval_tick fl (removeFile_UploadPage st i) h env = Some st'"
  shows "\<forall>c \<in> set (files st'). cf_id c = i \<longrightarrow> c \<in> set (files st)"
proof -
  let ?ufs = "uploadingFiles (removeFile_UploadPage st i)"
  from interval_tick_Some [OF assms] obtain j where
    fs': "files st' = files (removeFile_UploadPage st i)
            @ concat (map tr_added (tick_all fl j env 0 ?ufs))"
    by blast
  have "cf_id c \<noteq> i" if "c \<in> set (concat (map tr_added (tick_all fl j env 0 ?ufs)))" for c
  proof -
    from tick_all_added [OF that] obtain n where
      n: "n < length ?ufs" and c: "c \<in> set (tr_added (tick_entry fl j (env n) (?ufs ! n)))"
      by auto
    from n have "?ufs ! n \<in> set ?ufs"
      by simp
    then have "uf_id (?ufs ! n) \<noteq> i"
      by (simp add: removeFile_UploadPage_def)
    with tick_entry_added [OF c] show ?thesis
      by simp
  qed
  with fs' show ?thesis
    by (auto simp: removeFile_UploadPage_def)
qed

lemma subseq_distinct: "subseq xs ys \<Longrightarrow> distinct ys \<Longrightarrow> distinct xs"
  using subseqs_distinctD [of xs ys] by (simp add: set_subseqs_eq)

lemma inserted_by_tick:
  "interval_tick fl st h env = Some st' \<Longrightarrow>
     files st' = files st @ inserted_by fl st (IntervalTick h env)
     \<and> map uf_id (uploadingFiles st') = map uf_id (uploadingFiles st)"
proof -
  assume t: "interval_tick fl st h env = Some st'"
  from interval_tick_Some [OF t] obtain i where
    act: "map_of (intervals st) h = Some i" and
    ufs': "uploadingFiles st' = map tr_entry (tick_all fl i env 0 (uploadingFiles st))" and
    fs': "files st' = files st @ concat (map tr_added (tick_all fl i env 0 (uploadingFiles st)))"
    by blast
  from act fs' have "files st' = files st @ inserted_by fl st (IntervalTick h env)"
    by simp
  moreover have "map uf_id (uploadingFiles st') = map uf_id (uploadingFiles st)"
    by (simp only: ufs' tick_all_ids)
  ultimately show ?thesis
    by simp
qed

lemma inserted_by_source:
  assumes "c \<in> set (inserted_by fl st ev)"
  shows "\<exists>uf \<in> set (uploadingFiles st).
           cf_id c = uf_id uf \<and> cf_name c = f_name (uf_file uf)
           \<and> cf_size c = f_size (uf_file uf)"
proof (cases ev)
  case (IntervalTick h env)
  with assms obtain i where
    c: "c \<in> set (concat (map tr_added (tick_all fl i env 0 (uploadingFiles st))))"
    by (auto split: option.splits)
  from tick_all_added [OF c] obtain n where
    n: "n < length (uploadingFiles st)" and
    m: "c \<in> set (tr_added (tick_entry fl i (env n) (uploadingFiles st ! n)))"
    by auto
  from n have "uploadingFiles st ! n \<in> set (uploadingFiles st)"
    by simp
  with tick_entry_added [OF m] show ?thesis
    by blast
qed (use assms in simp_all)

section \<open>The sample sessions, evaluated\<close>

lemma rounding_exact: "rounding exact"
  by (simp add: rounding_def exact_def)

lemma sample_session_good: "list_all good_event sample_session"
  by (simp add: sample_session_def sample_env_def)

lemma sample_env_nonneg: "\<forall>k. 0 \<le> d_random (sample_env k)"
  by (simp add: sample_env_def)

lemma sample_session_run:
  "run exact init_state sample_session =
     \<lparr>uploadingFiles =
        [\<lparr>uf_file = sample_mp4, uf_progress = 90, uf_status = Uploading,
          uf_id = ''k3x9a0b1c''\<rparr>],
      files = [], intervals = [(0, ''k3x9a0b1c'')], nextInterval = 1, toasts = [],
      revoked = []\<rparr>"
  by (simp add: sample_session_def run_def init_state_def handleFiles_def validFile_def
      getFileType_def sample_mp4_def simulateUpload_def interval_tick_def tick_entry_def
      sample_env_def sample_ids_def exact_def)

lemma sample_session_last_tick:
  "interval_tick exact (run exact init_state sample_session) 0 sample_env = Some sample_final"
  by (simp add: sample_session_run interval_tick_def tick_entry_def sample_env_def
      getFileType_def sample_mp4_def sample_video_def addFile_def sample_final_def exact_def)

lemma sample_session_done:
  "run exact init_state (sample_session @ [IntervalTick 0 sample_env]) = sample_final"
  by (simp add: run_snoc sample_session_last_tick)

lemma sample_cancelled_eval:
  "sample_cancelled =
     \<lparr>uploadingFiles = [], files = [], intervals = [(0, ''k3x9a0b1c'')], nextInterval = 1,
      toasts = [], revoked = []\<rparr>"
  by (simp add: sample_cancelled_def run_def init_state_def handleFiles_def validFile_def
      getFileType_def sample_mp4_def simulateUpload_def removeFile_UploadPage_def
      sample_ids_def)

lemma sample_twins_run:
  "map uf_status (uploadingFiles (run exact init_state sample_twins)) = [Completed, Completed]
   \<and> map cf_id (files (run exact init_state sample_twins)) = [''k3x9a0b1c'', ''k3x9a0b1c'']
   \<and> intervals (run exact init_state sample_twins) = [(1, ''k3x9a0b1c'')]"
  by (simp add: sample_twins_def run_def init_state_def handleFiles_def validFile_def
      getFileType_def sample_mp4_def sample_mp3_def simulateUpload_def interval_tick_def
      tick_entry_def sample_env_def sample_ids_def exact_def addFile_def)

lemma sample_twins_again:
  "map cf_id (files (run exact init_state (sample_twins @ [IntervalTick 1 sample_env])))
     = [''k3x9a0b1c'', ''k3x9a0b1c'', ''k3x9a0b1c'', ''k3x9a0b1c'']"
  by (simp add: sample_twins_def run_def init_state_def handleFiles_def validFile_def
      getFileType_def sample_mp4_def sample_mp3_def simulateUpload_def interval_tick_def
      tick_entry_def sample_env_def sample_ids_def exact_def addFile_def)

section \<open>The progress simulation\<close>

text \<open>
  C1. In every state a session reaches, one firing of an interval (with draws of
  \<^verbatim>\<open>Math.random()\<close> that are not negative) keeps every entry of \<^verbatim>\<open>uploadingFiles\<close> in its
  place and under its id, never lowers its progress, keeps the progress at most 100 and
  never gives it the status \<^verbatim>\<open>'error'\<close>. What the firing appends to the catalog comes from an
  entry that this same firing has set to progress exactly 100 and status completed, and
  carries that entry's id and the object URL created in this firing. Conversely, an entry
  that the firing takes from uploading to completed has progress exactly 100 afterwards, and
  the catalog entry made of its id, its file's name, type and size, and the object URL and
  date of this firing is among the entries appended. No other handler inserts into the
  catalog: \<^verbatim>\<open>handleFiles\<close> and the page's \<^verbatim>\<open>removeFile\<close> leave it as it is, and
  \<^verbatim>\<open>deleteFile\<close> only takes entries away.
\<close>

theorem staging_progress_monotone:
  assumes "rounding fl"
      and "list_all good_event evs"
      and "st = run fl init_state evs"
      and "\<forall>k. 0 \<le> d_random (env k)"
      and "interval_tick fl st h env = Some st'"
  shows "length (uploadingFiles st') = length (uploadingFiles st)
     \<and> (\<forall>k < length (uploadingFiles st).
           uf_id (uploadingFiles st' ! k) = uf_id (uploadingFiles st ! k)
         \<and> uf_progress (uploadingFiles st ! k) \<le> uf_progress (uploadingFiles st' ! k)
         \<and> uf_progress (uploadingFiles st' ! k) \<le> 100
         \<and> uf_status (uploadingFiles st' ! k) \<noteq> Error)
     \<and> (\<exists>new. files st' = files st @ new
           \<and> (\<forall>c \<in> set new. \<exists>k < length (uploadingFiles st).
                 cf_id c = uf_id (uploadingFiles st ! k)
               \<and> cf_url c = d_objectURL (env k)
               \<and> uf_progress (uploadingFiles st' ! k) = 100
               \<and> uf_status (uploadingFiles st' ! k) = Completed)
           \<and> (\<forall>k < length (uploadingFiles st).
                 uf_status (uploadingFiles st ! k) = Uploading
                 \<and> uf_status (uploadingFiles st' ! k) = Completed \<longrightarrow>
                   uf_progress (uploadingFiles st' ! k) = 100
                 \<and> (\<exists>ft. getFileType (uf_file (uploadingFiles st ! k)) = Some ft
                      \<and> \<lparr>cf_id = uf_id (uploadingFiles st ! k),
                          cf_name = f_name (uf_file (uploadingFiles st ! k)),
                          cf_type = ft,
                          cf_size = f_size (uf_file (uploadingFiles st ! k)),
                          cf_url = d_objectURL (env k),
                          cf_uploadDate = d_date (env k),
                          cf_thumbnail = None\<rparr> \<in> set new)))
     \<and> files (handleFiles st fs ids) = files st
     \<and> files (removeFile_UploadPage st i) = files st
     \<and> set (files (deleteFile st f)) \<subseteq> set (files st)"
proof -
  let ?ufs = "uploadingFiles st"
  from interval_tick_Some [OF assms(5)] obtain j where
    ufs': "uploadingFiles st' = map tr_entry (tick_all fl j env 0 ?ufs)" and
    fs': "files st' = files st @ concat (map tr_added (tick_all fl j env 0 ?ufs))"
    by blast
  let ?new = "concat (map tr_added (tick_all fl j env 0 ?ufs))"
  have ok: "list_all (entry_ok fl) ?ufs"
    using assms(1,2,3) by (simp add: run_ok)
  have len: "length (uploadingFiles st') = length ?ufs"
    by (simp add: ufs')
  have nth': "uploadingFiles st' ! k = tr_entry (tick_entry fl j (env k) (?ufs ! k))"
    if "k < length ?ufs" for k
    using that by (simp add: ufs' nth_tick_all)
  have seq: "uf_id (uploadingFiles st' ! k) = uf_id (?ufs ! k)
         \<and> uf_progress (?ufs ! k) \<le> uf_progress (uploadingFiles st' ! k)
         \<and> uf_progress (uploadingFiles st' ! k) \<le> 100
         \<and> uf_status (uploadingFiles st' ! k) \<noteq> Error"
    if k: "k < length ?ufs" for k
  proof -
    from ok k have e: "entry_ok fl (?ufs ! k)"
      by (simp add: list_all_length)
    from assms(4) have r: "0 \<le> d_random (env k)"
      by simp
    from tick_entry_ok [OF assms(1) r e] have "entry_ok fl (uploadingFiles st' ! k)"
      by (simp add: nth' [OF k])
    with tick_entry_mono [OF assms(1) r e, of j] show ?thesis
      by (simp add: nth' [OF k] entry_ok_bounds)
  qed
  have added: "\<exists>k < length ?ufs. cf_id c = uf_id (?ufs ! k)
               \<and> cf_url c = d_objectURL (env k)
               \<and> uf_progress (uploadingFiles st' ! k) = 100
               \<and> uf_status (uploadingFiles st' ! k) = Completed"
    if "c \<in> set ?new" for c
  proof -
    from tick_all_added [OF that] obtain n where
      n: "n < length ?ufs" and c: "c \<in> set (tr_added (tick_entry fl j (env n) (?ufs ! n)))"
      by auto
    from tick_entry_added [OF c] n show ?thesis
      by (auto simp: nth' [OF n])
  qed
  have inserted: "uf_progress (uploadingFiles st' ! k) = 100
        \<and> (\<exists>ft. getFileType (uf_file (?ufs ! k)) = Some ft
             \<and> \<lparr>cf_id = uf_id (?ufs ! k), cf_name = f_name (uf_file (?ufs ! k)),
                 cf_type = ft, cf_size = f_size (uf_file (?ufs ! k)),
                 cf_url = d_objectURL (env k), cf_uploadDate = d_date (env k),
                 cf_thumbnail = None\<rparr> \<in> set ?new)"
    if k: "k < length ?ufs" and up: "uf_status (?ufs ! k) = Uploading"
      and co: "uf_status (uploadingFiles st' ! k) = Completed" for k
  proof -
    from ok k have "entry_ok fl (?ufs ! k)"
      by (simp add: list_all_length)
    then obtain ft where ft: "getFileType (uf_file (?ufs ! k)) = Some ft"
      by (auto simp: entry_ok_def)
    from co have "uf_status (tr_entry (tick_entry fl j (env k) (?ufs ! k))) = Completed"
      by (simp add: nth' [OF k])
    from tick_entry_completes [OF up this ft]
    have p: "uf_progress (uploadingFiles st' ! k) = 100"
      and a: "\<lparr>cf_id = uf_id (?ufs ! k), cf_name = f_name (uf_file (?ufs ! k)),
                 cf_type = ft, cf_size = f_size (uf_file (?ufs ! k)),
                 cf_url = d_objectURL (env k), cf_uploadDate = d_date (env k),
                 cf_thumbnail = None\<rparr> \<in> set (tr_added (tick_entry fl j (env k) (?ufs ! k)))"
      by (simp_all add: nth' [OF k])
    from tick_all_added_nth [OF k, of fl j env 0] a
    have "\<lparr>cf_id = uf_id (?ufs ! k), cf_name = f_name (uf_file (?ufs ! k)),
                 cf_type = ft, cf_size = f_size (uf_file (?ufs ! k)),
                 cf_url = d_objectURL (env k), cf_uploadDate = d_date (env k),
                 cf_thumbnail = None\<rparr> \<in> set ?new"
      by auto
    with p ft show ?thesis
      by blast
  qed
  have other: "files (handleFiles st fs ids) = files st
     \<and> files (removeFile_UploadPage st i) = files st
     \<and> set (files (deleteFile st f)) \<subseteq> set (files st)"
    by (auto simp: handleFiles_files removeFile_UploadPage_def deleteFile_def
        removeFile_call_def removeFile_def)
  from fs' added inserted
  have cat: "\<exists>new. files st' = files st @ new
           \<and> (\<forall>c \<in> set new. \<exists>k < length ?ufs.
                 cf_id c = uf_id (?ufs ! k)
               \<and> cf_url c = d_objectURL (env k)
               \<and> uf_progress (uploadingFiles st' ! k) = 100
               \<and> uf_status (uploadingFiles st' ! k) = Completed)
           \<and> (\<forall>k < length ?ufs.
                 uf_status (?ufs ! k) = Uploading
                 \<and> uf_status (uploadingFiles st' ! k) = Completed \<longrightarrow>
                   uf_progress (uploadingFiles st' ! k) = 100
                 \<and> (\<exists>ft. getFileType (uf_file (?ufs ! k)) = Some ft
                      \<and> \<lparr>cf_id = uf_id (?ufs ! k),
                          cf_name = f_name (uf_file (?ufs ! k)),
                          cf_type = ft,
                          cf_size = f_size (uf_file (?ufs ! k)),
                          cf_url = d_objectURL (env k),
                          cf_uploadDate = d_date (env k),
                          cf_thumbnail = None\<rparr> \<in> set new))"
    by (intro exI [of _ ?new] conjI) blast+
  from len seq cat other show ?thesis
    by blast
qed

text \<open>
  C1 at the sample session: the ninth firing takes the progress from 90 to exactly 100, and
  the theorem puts the entry of the uploaded file into the catalog, which was empty.
\<close>

theorem staging_progress_monotone_witness:
  "rounding exact
   \<and> list_all good_event sample_session
   \<and> (\<forall>k. 0 \<le> d_random (sample_env k))
   \<and> interval_tick exact (run exact init_state sample_session) 0 sample_env = Some sample_final
   \<and> length (uploadingFiles sample_final)
       = length (uploadingFiles (run exact init_state sample_session))
   \<and> map uf_progress (uploadingFiles (run exact init_state sample_session)) = [90]
   \<and> map uf_progress (uploadingFiles sample_final) = [100]
   \<and> files (run exact init_state sample_session) = []
   \<and> sample_video \<in> set (files sample_final)"
proof -
  let ?S = "run exact init_state sample_session"
  note h0 = rounding_exact and h1 = sample_session_good and h3 = sample_env_nonneg
    and h4 = sample_session_last_tick
  note T = staging_progress_monotone [OF h0 h1 refl h3 h4]
  from T have len: "length (uploadingFiles sample_final) = length (uploadingFiles ?S)"
    by (rule conjunct1)
  from T obtain new where new: "files sample_final = files ?S @ new"
    and ins: "\<forall>k < length (uploadingFiles ?S).
                 uf_status (uploadingFiles ?S ! k) = Uploading
                 \<and> uf_status (uploadingFiles sample_final ! k) = Completed \<longrightarrow>
                   uf_progress (uploadingFiles sample_final ! k) = 100
                 \<and> (\<exists>ft. getFileType (uf_file (uploadingFiles ?S ! k)) = Some ft
                      \<and> \<lparr>cf_id = uf_id (uploadingFiles ?S ! k),
                          cf_name = f_name (uf_file (uploadingFiles ?S ! k)),
                          cf_type = ft,
                          cf_size = f_size (uf_file (uploadingFiles ?S ! k)),
                          cf_url = d_objectURL (sample_env k),
                          cf_uploadDate = d_date (sample_env k),
                          cf_thumbnail = None\<rparr> \<in> set new)"
    by blast
  have k0: "0 < length (uploadingFiles ?S)"
    and up: "uf_status (uploadingFiles ?S ! 0) = Uploading"
    by (simp_all add: sample_session_run)
  have co: "uf_status (uploadingFiles sample_final ! 0) = Completed"
    by (simp add: sample_final_def)
  from ins k0 up co obtain ft where
    ft: "getFileType (uf_file (uploadingFiles ?S ! 0)) = Some ft" and
    mem: "\<lparr>cf_id = uf_id (uploadingFiles ?S ! 0),
            cf_name = f_name (uf_file (uploadingFiles ?S ! 0)),
            cf_type = ft,
            cf_size = f_size (uf_file (uploadingFiles ?S ! 0)),
            cf_url = d_objectURL (sample_env 0),
            cf_uploadDate = d_date (sample_env 0),
            cf_thumbnail = None\<rparr> \<in> set new"
    by blast
  from ft have "ft = Video"
    by (simp add: sample_session_run sample_mp4_def getFileType_def)
  with mem have "sample_video \<in> set new"
    by (simp add: sample_session_run sample_mp4_def sample_env_def sample_video_def)
  with new have v: "sample_video \<in> set (files sample_final)"
    by simp
  have vals: "map uf_progress (uploadingFiles ?S) = [90]
      \<and> map uf_progress (uploadingFiles sample_final) = [100]
      \<and> files ?S = []"
    by (simp add: sample_session_run sample_final_def)
  from h0 h1 h3 h4 len vals v show ?thesis
    by blast
qed

text \<open>
  C2, evaluated where it fails. A file is handed to \<^verbatim>\<open>handleFiles\<close> and its progress row is
  removed at once. The page's \<^verbatim>\<open>removeFile\<close> has taken the entry out of \<^verbatim>\<open>uploadingFiles\<close>,
  and the catalog is empty; but the interval that \<^verbatim>\<open>simulateUpload\<close> started is still
  registered, and it fires: the firing is a step of the session that leaves the state as it
  was.
\<close>

theorem cancel_keeps_interval:
  "uploadingFiles sample_cancelled = []
   \<and> files sample_cancelled = []
   \<and> intervals sample_cancelled = [(0, ''k3x9a0b1c'')]
   \<and> interval_tick fl sample_cancelled 0 sample_env = Some sample_cancelled"
  by (simp add: sample_cancelled_eval interval_tick_def)

section \<open>The catalog\<close>

text \<open>
  C3, as the code has it. \<^verbatim>\<open>addFile\<close> has no check of the id and no error to report: it
  puts whatever it is given at the end of the catalog, after the entries that were there,
  which stay as they were. The catalog then holds one more entry of the new entry's id than
  before; so its ids are distinct afterwards exactly when they were distinct before and the
  new id was not among them.
\<close>

theorem addFile_always_appends:
  "last (addFile fs f) = f
   \<and> butlast (addFile fs f) = fs
   \<and> length (filter (\<lambda>g. cf_id g = cf_id f) (addFile fs f))
       = Suc (length (filter (\<lambda>g. cf_id g = cf_id f) fs))
   \<and> (distinct (map cf_id (addFile fs f))
        \<longleftrightarrow> distinct (map cf_id fs) \<and> cf_id f \<notin> cf_id ` set fs)"
  by (auto simp: addFile_def)

text \<open>
  C3 as stated fails: the id of \<open>sample_video_twin\<close> is already in the catalog, and
  \<^verbatim>\<open>addFile\<close> inserts it as a second entry of that id.
\<close>

theorem addFile_duplicate_id_counterexample:
  "cf_id sample_video_twin \<in> cf_id ` set [sample_video]
   \<and> addFile [sample_video] sample_video_twin = [sample_video, sample_video_twin]
   \<and> map cf_id (addFile [sample_video] sample_video_twin) = [''k3x9a0b1c'', ''k3x9a0b1c'']"
  by (simp add: addFile_def sample_video_def sample_video_twin_def)

text \<open>
  C4, as the code has it. A call of the context's \<^verbatim>\<open>removeFile(id)\<close> leaves exactly the
  entries of other ids and revokes nothing; a lookup of the id finds nothing afterwards, a
  call for an absent id leaves the state as it is, and a second call changes nothing. The
  object URL is revoked by \<^verbatim>\<open>deleteFile\<close>, which removes by the entry's id and then revokes
  the entry's URL, once in every call. When the ids of the catalog are distinct and the
  entry is in it, \<^verbatim>\<open>deleteFile\<close> removes this entry and no other, so the URL revoked is the
  URL of what was removed; when the URLs of the catalog are distinct, no entry left in the
  catalog holds the revoked URL.
\<close>

theorem catalog_remove:
  "set (files (removeFile_call st i)) = {g \<in> set (files st). cf_id g \<noteq> i}
   \<and> getFile (files (removeFile_call st i)) i = None
   \<and> revoked (removeFile_call st i) = revoked st
   \<and> removeFile_call (removeFile_call st i) i = removeFile_call st i
   \<and> (i \<notin> cf_id ` set (files st) \<longrightarrow> removeFile_call st i = st)
   \<and> files (deleteFile st f) = files (removeFile_call st (cf_id f))
   \<and> revoked (deleteFile st f) = revoked st @ [cf_url f]
   \<and> (distinct (map cf_id (files st)) \<and> f \<in> set (files st) \<longrightarrow>
        files (deleteFile st f) = remove1 f (files st))
   \<and> (distinct (map cf_url (files st)) \<and> f \<in> set (files st) \<longrightarrow>
        cf_url f \<notin> cf_url ` set (files (deleteFile st f)))"
proof -
  have a: "set (files (removeFile_call st i)) = {g \<in> set (files st). cf_id g \<noteq> i}"
    by (simp add: removeFile_call_def removeFile_def)
  have b: "getFile (files (removeFile_call st i)) i = None"
    by (simp add: removeFile_call_def getFile_removeFile)
  have c: "revoked (removeFile_call st i) = revoked st"
    by (simp add: removeFile_call_def)
  have d: "removeFile_call (removeFile_call st i) i = removeFile_call st i"
    by (simp add: removeFile_call_def removeFile_idem)
  have e: "removeFile_call st i = st" if "i \<notin> cf_id ` set (files st)"
    using removeFile_absent [OF that] by (simp add: removeFile_call_def)
  have g: "files (deleteFile st f) = files (removeFile_call st (cf_id f))"
    by (simp add: deleteFile_def)
  have h: "revoked (deleteFile st f) = revoked st @ [cf_url f]"
    by (simp add: deleteFile_def)
  have k: "files (deleteFile st f) = remove1 f (files st)"
    if "distinct (map cf_id (files st))" and "f \<in> set (files st)"
    using filter_distinct_key [OF that]
    by (simp add: deleteFile_def removeFile_call_def removeFile_def)
  note l = deleteFile_url_gone [of st f]
  from a b c d e g h k l show ?thesis
    by blast
qed

text \<open>
  C4 at the state the sample session ends in: an id that is not in the catalog, and the
  deletion of the one entry that is.
\<close>

theorem catalog_remove_witness:
  "''p7q2r5s8t'' \<notin> cf_id ` set (files sample_final)
   \<and> removeFile_call sample_final ''p7q2r5s8t'' = sample_final
   \<and> distinct (map cf_id (files sample_final))
   \<and> distinct (map cf_url (files sample_final))
   \<and> sample_video \<in> set (files sample_final)
   \<and> files (deleteFile sample_final sample_video) = []
   \<and> cf_url sample_video \<notin> cf_url ` set (files (deleteFile sample_final sample_video))
   \<and> revoked (deleteFile sample_final sample_video) = [''blob:1'']"
proof -
  have h1: "''p7q2r5s8t'' \<notin> cf_id ` set (files sample_final)"
    by (simp add: sample_final_def sample_video_def)
  have h2: "distinct (map cf_id (files sample_final))"
    and h3: "sample_video \<in> set (files sample_final)"
    and h4: "distinct (map cf_url (files sample_final))"
    by (simp_all add: sample_final_def)
  note c = catalog_remove [of sample_final "''p7q2r5s8t''" sample_video]
  from c h1 have a: "removeFile_call sample_final ''p7q2r5s8t'' = sample_final"
    by blast
  from c h2 h3 have "files (deleteFile sample_final sample_video)
                       = remove1 sample_video (files sample_final)"
    by blast
  then have b: "files (deleteFile sample_final sample_video) = []"
    by (simp add: sample_final_def)
  from c h4 h3
  have e: "cf_url sample_video \<notin> cf_url ` set (files (deleteFile sample_final sample_video))"
    by blast
  from c have "revoked (deleteFile sample_final sample_video)
                 = revoked sample_final @ [cf_url sample_video]"
    by blast
  then have d: "revoked (deleteFile sample_final sample_video) = [''blob:1'']"
    by (simp add: sample_final_def sample_video_def)
  from h1 h2 h3 h4 a b d e show ?thesis
    by blast
qed

text \<open>
  C4 as stated fails, for either operation. A call of the context's \<^verbatim>\<open>removeFile\<close> takes the
  sample entry out of the catalog and revokes nothing. And \<^verbatim>\<open>deleteFile\<close> of an entry that
  is no longer in the catalog is not a no-op: it revokes the URL a second time.
\<close>

theorem remove_release_counterexample:
  "files (removeFile_call sample_final ''k3x9a0b1c'') = []
   \<and> revoked (removeFile_call sample_final ''k3x9a0b1c'') = []
   \<and> cf_id sample_video \<notin> cf_id ` set (files (deleteFile sample_final sample_video))
   \<and> revoked (deleteFile sample_final sample_video) = [''blob:1'']
   \<and> revoked (deleteFile (deleteFile sample_final sample_video) sample_video)
       = [''blob:1'', ''blob:1'']"
  by (simp add: removeFile_call_def removeFile_def deleteFile_def sample_final_def
      sample_video_def)

section \<open>Validation of a batch\<close>

text \<open>
  C5, as the code has it. The callback looks at the type first. It raises the toast
  \<^verbatim>\<open>File Too Large\<close> exactly when the type is a supported one and the size is greater than
  50 * 1024 * 1024 bytes; it raises \<^verbatim>\<open>Unsupported File Type\<close> exactly when the type is not
  supported, whatever the size; and it lets the file through exactly when the type is
  supported and the size is at most 50 * 1024 * 1024, which covers the empty file and the
  file of exactly that size.
\<close>

theorem validFile_too_large:
  "(map t_title (snd (validFile f)) = [''File Too Large'']
      \<longleftrightarrow> getFileType f \<noteq> None \<and> f_size f > 50 * 1024 * 1024)
   \<and> (map t_title (snd (validFile f)) = [''Unsupported File Type'']
      \<longleftrightarrow> getFileType f = None)
   \<and> (fst (validFile f) \<longleftrightarrow> getFileType f \<noteq> None \<and> f_size f \<le> 50 * 1024 * 1024)"
  by (auto simp: validFile_def split: option.splits)

text \<open>
  C5 as stated fails: a file of type \<^verbatim>\<open>application/zip\<close> and 60 MiB is over the limit, and
  the one toast it gets is \<^verbatim>\<open>Unsupported File Type\<close>.
\<close>

theorem validFile_type_first_counterexample:
  "f_size sample_zip > 50 * 1024 * 1024
   \<and> map t_title (snd (validFile sample_zip)) = [''Unsupported File Type'']"
  by (simp add: sample_zip_def validFile_def getFileType_def)

text \<open>
  C8, as the code has it. \<^verbatim>\<open>getFileType\<close> yields video exactly for a type that starts with
  \<^verbatim>\<open>video/\<close>, audio exactly for one that starts with \<^verbatim>\<open>audio/\<close>, pdf exactly for the type
  \<^verbatim>\<open>application/pdf\<close>, and nothing exactly for every other type; the four cases exclude each
  other and cover every type, and the name and the size of the file play no part.
\<close>

theorem getFileType_total:
  "(getFileType f = Some Video \<longleftrightarrow> prefix ''video/'' (f_type f))
   \<and> (getFileType f = Some Audio \<longleftrightarrow> prefix ''audio/'' (f_type f))
   \<and> (getFileType f = Some Pdf \<longleftrightarrow> f_type f = ''application/pdf'')
   \<and> (getFileType f = None \<longleftrightarrow>
        \<not> prefix ''video/'' (f_type f) \<and> \<not> prefix ''audio/'' (f_type f)
        \<and> f_type f \<noteq> ''application/pdf'')
   \<and> getFileType (f\<lparr>f_name := n, f_size := s\<rparr>) = getFileType f"
  using prefix_video_audio [of "f_type f"] prefix_audio_pdf [of "f_type f"]
  by (auto simp: getFileType_def)

text \<open>
  C8 as stated fails: the type \<^verbatim>\<open>videos/mp4\<close> has the prefix \<^verbatim>\<open>video\<close>, and \<^verbatim>\<open>getFileType\<close>
  yields nothing for it, since the prefix it tests ends with the slash.
\<close>

theorem getFileType_prefix_counterexample:
  "prefix ''video'' (f_type sample_videos) \<and> getFileType sample_videos = None"
  by (simp add: getFileType_def sample_videos_def)

section \<open>Completion and identity\<close>

text \<open>
  C6, as the code has it. Take a session in which the strings drawn for the ids are
  pairwise distinct, and an entry of \<^verbatim>\<open>uploadingFiles\<close> that is completed at some point of
  it. Its progress is exactly 100 and no registered interval closes over its id: the firing
  that completed it has called \<^verbatim>\<open>clearInterval\<close>. The entry is not taken out of
  \<^verbatim>\<open>uploadingFiles\<close>: as long as its progress row is not removed, it is still there after
  any further events of the session, unchanged, and still no registered interval closes
  over its id, so no firing touches it. No entry has the status \<^verbatim>\<open>'error'\<close>.
\<close>

theorem completed_entry_is_terminal:
  assumes "rounding fl"
      and "list_all good_event (evs @ evs')"
      and "distinct (drawn_ids (evs @ evs'))"
      and "uf \<in> set (uploadingFiles (run fl init_state evs))"
      and "uf_status uf = Completed"
      and "CancelUpload (uf_id uf) \<notin> set evs'"
  shows "uf_progress uf = 100
     \<and> uf_id uf \<notin> snd ` set (intervals (run fl init_state evs))
     \<and> uf \<in> set (uploadingFiles (run fl init_state (evs @ evs')))
     \<and> uf_id uf \<notin> snd ` set (intervals (run fl init_state (evs @ evs')))
     \<and> list_all (\<lambda>u. uf_status u \<noteq> Error) (uploadingFiles (run fl init_state (evs @ evs')))"
proof -
  have inv: "session_inv fl (set (drawn_ids (evs @ es))) (all_inserted fl init_state (evs @ es))
               (run fl init_state (evs @ es))"
    if "list_all good_event (evs @ es)" and "distinct (drawn_ids (evs @ es))" for es
    using assms(1) that by (rule inv_run)
  have completed_free: "uf_id uf \<notin> snd ` set (intervals (run fl init_state (evs @ es)))"
    if "list_all good_event (evs @ es)" and "distinct (drawn_ids (evs @ es))"
      and "uf \<in> set (uploadingFiles (run fl init_state (evs @ es)))" for es
  proof -
    from inv [OF that(1,2)]
    have "list_all (\<lambda>u. uf_status u = Completed \<longrightarrow>
             uf_id u \<notin> snd ` set (intervals (run fl init_state (evs @ es))))
           (uploadingFiles (run fl init_state (evs @ es)))"
      by (simp add: session_inv_def)
    with that(3) assms(5) show ?thesis
      by (auto simp: list_all_iff)
  qed
  have stays: "uf \<in> set (uploadingFiles (run fl init_state (evs @ es)))"
    if "list_all good_event (evs @ es)" and "distinct (drawn_ids (evs @ es))"
      and "CancelUpload (uf_id uf) \<notin> set es" for es
    using that
  proof (induction es rule: rev_induct)
    case Nil
    with assms(4) show ?case by simp
  next
    case (snoc ev es)
    from snoc.prems have g: "list_all good_event (evs @ es)"
      and d: "distinct (drawn_ids (evs @ es))"
      and c: "CancelUpload (uf_id uf) \<notin> set es"
      and ne: "ev \<noteq> CancelUpload (uf_id uf)"
      by (auto simp: drawn_ids_append)
    from snoc.IH [OF g d c] have m: "uf \<in> set (uploadingFiles (run fl init_state (evs @ es)))" .
    from step_keeps_entry [OF m completed_free [OF g d m] ne, of fl]
    have "uf \<in> set (uploadingFiles (run fl init_state ((evs @ es) @ [ev])))"
      by (simp only: run_snoc)
    then show ?case
      by simp
  qed
  from assms(2,3) have g0: "list_all good_event (evs @ [])"
    and d0: "distinct (drawn_ids (evs @ []))"
    by (auto simp: drawn_ids_append)
  from assms(4) have m0: "uf \<in> set (uploadingFiles (run fl init_state (evs @ [])))"
    by simp
  from completed_free [OF g0 d0 m0]
  have a: "uf_id uf \<notin> snd ` set (intervals (run fl init_state evs))"
    by simp
  from g0 have "list_all (entry_ok fl) (uploadingFiles (run fl init_state evs))"
    using assms(1) by (simp add: run_ok)
  with assms(4) have "entry_ok fl uf"
    by (simp add: list_all_iff)
  from entry_ok_Completed [OF this assms(5)] have p: "uf_progress uf = 100" .
  from stays [OF assms(2,3,6)]
  have s: "uf \<in> set (uploadingFiles (run fl init_state (evs @ evs')))" .
  from completed_free [OF assms(2,3) s]
  have b: "uf_id uf \<notin> snd ` set (intervals (run fl init_state (evs @ evs')))" .
  have "list_all (entry_ok fl) (uploadingFiles (run fl init_state (evs @ evs')))"
    using assms(1,2) by (rule run_ok)
  then have e: "list_all (\<lambda>u. uf_status u \<noteq> Error)
                  (uploadingFiles (run fl init_state (evs @ evs')))"
    by (auto simp: list_all_iff dest: entry_ok_bounds)
  from p a s b e show ?thesis
    by blast
qed

text \<open>
  C6 at the sample session: the ninth firing has completed the entry; a further firing
  event and the deletion of the catalog entry leave it in \<^verbatim>\<open>uploadingFiles\<close>.
\<close>

theorem completed_entry_is_terminal_witness:
  "rounding exact
   \<and> list_all good_event
        ((sample_session @ [IntervalTick 0 sample_env])
           @ [IntervalTick 0 sample_env, DeleteFile sample_video])
   \<and> distinct (drawn_ids
        ((sample_session @ [IntervalTick 0 sample_env])
           @ [IntervalTick 0 sample_env, DeleteFile sample_video]))
   \<and> \<lparr>uf_file = sample_mp4, uf_progress = 100, uf_status = Completed, uf_id = ''k3x9a0b1c''\<rparr>
        \<in> set (uploadingFiles (run exact init_state (sample_session @ [IntervalTick 0 sample_env])))
   \<and> CancelUpload ''k3x9a0b1c'' \<notin> set [IntervalTick 0 sample_env, DeleteFile sample_video]
   \<and> \<lparr>uf_file = sample_mp4, uf_progress = 100, uf_status = Completed, uf_id = ''k3x9a0b1c''\<rparr>
        \<in> set (uploadingFiles (run exact init_state
              ((sample_session @ [IntervalTick 0 sample_env])
                 @ [IntervalTick 0 sample_env, DeleteFile sample_video])))"
proof -
  let ?uf = "\<lparr>uf_file = sample_mp4, uf_progress = 100, uf_status = Completed,
               uf_id = ''k3x9a0b1c''\<rparr>"
  let ?evs = "sample_session @ [IntervalTick 0 sample_env]"
  let ?evs' = "[IntervalTick 0 sample_env, DeleteFile sample_video]"
  have h2: "list_all good_event (?evs @ ?evs')"
    by (simp add: sample_session_def sample_env_def)
  have h3: "distinct (drawn_ids (?evs @ ?evs'))"
    by (simp add: sample_session_def drawn_ids_def validFile_def getFileType_def
        sample_mp4_def)
  have h4: "?uf \<in> set (uploadingFiles (run exact init_state ?evs))"
    by (simp add: sample_session_done sample_final_def)
  have h5: "uf_status ?uf = Completed"
    by simp
  have h6: "CancelUpload (uf_id ?uf) \<notin> set ?evs'"
    by simp
  from completed_entry_is_terminal [OF rounding_exact h2 h3 h4 h5 h6]
  have "?uf \<in> set (uploadingFiles (run exact init_state (?evs @ ?evs')))"
    by blast
  with rounding_exact h2 h3 h4 h6 show ?thesis
    by simp
qed

text \<open>
  C6 as stated fails, in two ways. After the firing that completes it, the entry of the
  sample session is still in \<^verbatim>\<open>uploadingFiles\<close>, as a completed entry under its id. And when
  the same string has been drawn for two ids, completion is not the end of the firings: the
  first interval completes both entries and inserts both, the second interval is still
  registered, and its next firing inserts both once more.
\<close>

theorem completed_entry_stays_counterexample:
  "map uf_status (uploadingFiles (run exact init_state (sample_session @ [IntervalTick 0 sample_env])))
     = [Completed]
   \<and> map uf_id (uploadingFiles (run exact init_state (sample_session @ [IntervalTick 0 sample_env])))
     = [''k3x9a0b1c'']
   \<and> map uf_status (uploadingFiles (run exact init_state sample_twins)) = [Completed, Completed]
   \<and> intervals (run exact init_state sample_twins) = [(1, ''k3x9a0b1c'')]
   \<and> map cf_id (files (run exact init_state sample_twins)) = [''k3x9a0b1c'', ''k3x9a0b1c'']
   \<and> map cf_id (files (run exact init_state (sample_twins @ [IntervalTick 1 sample_env])))
     = [''k3x9a0b1c'', ''k3x9a0b1c'', ''k3x9a0b1c'', ''k3x9a0b1c'']"
  using sample_twins_run sample_twins_again
  by (simp add: sample_session_done sample_final_def)

text \<open>
  C7, as the code has it. The ids are what the generator draws: the ids of the staging
  entries created in a session, in the order of their creation, are the strings drawn.
  Take a session in which the strings drawn are pairwise distinct. Then the staging entries
  ever created have pairwise distinct ids; so have the entries ever passed to \<^verbatim>\<open>addFile\<close>,
  and the id of each of them is the id of a staging entry created in the session. At every
  point of the session the ids in \<^verbatim>\<open>uploadingFiles\<close> are distinct and are ids of created
  entries, and the catalog is what deletions have left of the entries passed to \<^verbatim>\<open>addFile\<close>,
  so its ids are distinct too. In any state, \<^verbatim>\<open>handleFiles\<close> appends the entries it creates
  and changes no other, a firing of an interval changes no id in \<^verbatim>\<open>uploadingFiles\<close>, and an
  entry passed to \<^verbatim>\<open>addFile\<close> carries the id, the name and the size of an entry of
  \<^verbatim>\<open>uploadingFiles\<close>.
\<close>

theorem ids_distinct_when_draws_distinct:
  assumes "rounding fl"
      and "list_all good_event evs"
      and "distinct (drawn_ids evs)"
  shows "map uf_id (all_created evs) = drawn_ids evs
     \<and> distinct (map uf_id (all_created evs))
     \<and> distinct (map cf_id (all_inserted fl init_state evs))
     \<and> set (map cf_id (all_inserted fl init_state evs)) \<subseteq> set (map uf_id (all_created evs))
     \<and> distinct (map uf_id (uploadingFiles (run fl init_state evs)))
     \<and> set (map uf_id (uploadingFiles (run fl init_state evs)))
          \<subseteq> set (map uf_id (all_created evs))
     \<and> subseq (files (run fl init_state evs)) (all_inserted fl init_state evs)
     \<and> distinct (map cf_id (files (run fl init_state evs)))
     \<and> uploadingFiles (handleFiles st fs ids)
          = uploadingFiles st @ created_by (HandleFiles fs ids)
     \<and> (case interval_tick fl st h env of
           None \<Rightarrow> True
         | Some st' \<Rightarrow>
             files st' = files st @ inserted_by fl st (IntervalTick h env)
             \<and> map uf_id (uploadingFiles st') = map uf_id (uploadingFiles st))
     \<and> (\<forall>c \<in> set (inserted_by fl st ev). \<exists>uf \<in> set (uploadingFiles st).
           cf_id c = uf_id uf \<and> cf_name c = f_name (uf_file uf)
           \<and> cf_size c = f_size (uf_file uf))"
proof -
  let ?D = "set (drawn_ids evs)"
  let ?H = "all_inserted fl init_state evs"
  let ?S = "run fl init_state evs"
  note ids = all_created_ids [of evs]
  from inv_run [OF assms] have inv: "session_inv fl ?D ?H ?S" .
  then have du: "distinct (map uf_id (uploadingFiles ?S))"
    and su: "uf_id ` set (uploadingFiles ?S) \<subseteq> ?D"
    and dh: "distinct (map cf_id ?H)"
    and sh: "cf_id ` set ?H \<subseteq> ?D"
    and sub: "subseq (files ?S) ?H"
    by (simp_all add: session_inv_def)
  have a: "distinct (map uf_id (all_created evs))"
    using assms(3) by (simp only: ids)
  have b: "set (map cf_id ?H) \<subseteq> set (map uf_id (all_created evs))"
    using sh by (simp only: ids) simp
  have c: "set (map uf_id (uploadingFiles ?S)) \<subseteq> set (map uf_id (all_created evs))"
    using su by (simp only: ids) simp
  from subseq_map [OF sub, of cf_id] dh have d: "distinct (map cf_id (files ?S))"
    by (rule subseq_distinct)
  have e: "uploadingFiles (handleFiles st fs ids)
             = uploadingFiles st @ created_by (HandleFiles fs ids)"
    by (rule handleFiles_uploadingFiles)
  have f: "(case interval_tick fl st h env of
           None \<Rightarrow> True
         | Some st' \<Rightarrow>
             files st' = files st @ inserted_by fl st (IntervalTick h env)
             \<and> map uf_id (uploadingFiles st') = map uf_id (uploadingFiles st))"
    using inserted_by_tick [of fl st h env] by (simp split: option.split)
  have g: "\<forall>c \<in> set (inserted_by fl st ev). \<exists>uf \<in> set (uploadingFiles st).
           cf_id c = uf_id uf \<and> cf_name c = f_name (uf_file uf)
           \<and> cf_size c = f_size (uf_file uf)"
    using inserted_by_source [of _ fl st ev] by blast
  from ids a dh b du c sub d e f g show ?thesis
    by blast
qed

text \<open>
  C7 at a session of two batches: one file, completed by nine firings of its interval, and
  then a second file under another id.
\<close>

theorem ids_distinct_when_draws_distinct_witness:
  "rounding exact
   \<and> list_all good_event
       (sample_session @ [IntervalTick 0 sample_env, HandleFiles [sample_mp3] other_ids])
   \<and> distinct (drawn_ids
       (sample_session @ [IntervalTick 0 sample_env, HandleFiles [sample_mp3] other_ids]))
   \<and> map uf_id (uploadingFiles (run exact init_state
       (sample_session @ [IntervalTick 0 sample_env, HandleFiles [sample_mp3] other_ids])))
       = [''k3x9a0b1c'', ''p7q2r5s8t'']
   \<and> files (run exact init_state
       (sample_session @ [IntervalTick 0 sample_env, HandleFiles [sample_mp3] other_ids]))
       = [sample_video]
   \<and> distinct (map cf_id (all_inserted exact init_state
       (sample_session @ [IntervalTick 0 sample_env, HandleFiles [sample_mp3] other_ids])))
   \<and> subseq [sample_video] (all_inserted exact init_state
       (sample_session @ [IntervalTick 0 sample_env, HandleFiles [sample_mp3] other_ids]))"
proof -
  let ?evs = "sample_session @ [IntervalTick 0 sample_env, HandleFiles [sample_mp3] other_ids]"
  have h2: "list_all good_event ?evs"
    by (simp add: sample_session_def sample_env_def)
  have h3: "distinct (drawn_ids ?evs)"
    by (simp add: sample_session_def drawn_ids_def validFile_def getFileType_def
        sample_mp4_def sample_mp3_def sample_ids_def other_ids_def)
  have r: "run exact init_state ?evs = handleFiles sample_final [sample_mp3] other_ids"
    using sample_session_done by (simp add: run_def)
  have u: "map uf_id (uploadingFiles (run exact init_state ?evs)) = [''k3x9a0b1c'', ''p7q2r5s8t'']"
    unfolding r
    by (simp add: handleFiles_uploadingFiles sample_final_def validFile_def getFileType_def
        sample_mp3_def other_ids_def)
  have f: "files (run exact init_state ?evs) = [sample_video]"
    unfolding r by (simp add: handleFiles_files sample_final_def)
  note T = ids_distinct_when_draws_distinct [OF rounding_exact h2 h3]
  from T have d: "distinct (map cf_id (all_inserted exact init_state ?evs))"
    by blast
  from T have "subseq (files (run exact init_state ?evs)) (all_inserted exact init_state ?evs)"
    by blast
  then have s: "subseq [sample_video] (all_inserted exact init_state ?evs)"
    by (simp only: f)
  from rounding_exact h2 h3 u f d s show ?thesis
    by blast
qed

text \<open>
  C7 as stated fails: when the generator draws the same string for both files of a batch,
  the two entries created have the same id.
\<close>

theorem duplicate_ids_counterexample:
  "map uf_id (uploadingFiles (handleFiles init_state [sample_mp4, sample_mp3] sample_ids))
     = [''k3x9a0b1c'', ''k3x9a0b1c'']"
  by (simp add: init_state_def handleFiles_def validFile_def getFileType_def
      sample_mp4_def sample_mp3_def simulateUpload_def sample_ids_def)

section \<open>The filtered view\<close>

text \<open>
  C9, as the code has it. Let the case mapping be one that lowers ASCII text as
  \<^verbatim>\<open>toLowerCase\<close> does. With the filter \<^verbatim>\<open>'all'\<close> and an empty search term the view is the
  catalog itself. With a type filter every entry of the view has that type. With the filter
  \<^verbatim>\<open>'all'\<close> the view keeps exactly the entries whose name, after the case mapping, has the
  search term, after the case mapping, as a contiguous part. Wherever the case mapping acts
  on the name and on the term code unit by code unit, these are exactly the entries whose
  name has a contiguous part that the unit mapping makes equal to the term; so for an ASCII
  name and an ASCII term they are exactly the entries whose name has a contiguous part that
  is the term up to the case of its letters. An empty search term leaves only the type
  filter at work. The view for a term and a type filter together is the type filter applied
  to the view for the term, and also the term applied to the view for the type filter.
\<close>

theorem filteredFiles_query:
  assumes "lowers_ascii lc"
  shows "filteredFiles lc fs [] FilterAll = fs
     \<and> (\<forall>f \<in> set (filteredFiles lc fs text (FilterOnly c)). cf_type f = c)
     \<and> filteredFiles lc fs text FilterAll
         = filter (\<lambda>f. sublist (lc text) (lc (cf_name f))) fs
     \<and> (\<forall>f l. lc text = map l text \<and> lc (cf_name f) = map l (cf_name f) \<longrightarrow>
           (f \<in> set (filteredFiles lc fs text FilterAll)
              \<longleftrightarrow> f \<in> set fs \<and> (\<exists>s. sublist s (cf_name f) \<and> map l s = map l text)))
     \<and> (\<forall>f. is_ascii text \<and> is_ascii (cf_name f) \<longrightarrow>
           (f \<in> set (filteredFiles lc fs text FilterAll)
              \<longleftrightarrow> f \<in> set fs \<and> (\<exists>s. sublist s (cf_name f) \<and> list_all2 same_letter s text)))
     \<and> filteredFiles lc fs [] ft = filter (\<lambda>f. ft = FilterAll \<or> FilterOnly (cf_type f) = ft) fs
     \<and> filteredFiles lc fs text ft = filteredFiles lc (filteredFiles lc fs text FilterAll) [] ft
     \<and> filteredFiles lc fs text ft = filteredFiles lc (filteredFiles lc fs [] ft) text FilterAll"
proof -
  note e = lowers_ascii_Nil [OF assms]
  have inc: "js_includes s []" for s
    by (simp add: js_includes_sublist)
  have a: "filteredFiles lc fs [] FilterAll = fs"
    by (simp add: filteredFiles_def e inc)
  have b: "\<forall>f \<in> set (filteredFiles lc fs text (FilterOnly c)). cf_type f = c"
    by (auto simp: filteredFiles_def)
  have c: "filteredFiles lc fs text FilterAll
         = filter (\<lambda>f. sublist (lc text) (lc (cf_name f))) fs"
    by (simp add: filteredFiles_def js_includes_sublist)
  have u: "f \<in> set (filteredFiles lc fs text FilterAll)
              \<longleftrightarrow> f \<in> set fs \<and> (\<exists>s. sublist s (cf_name f) \<and> map l s = map l text)"
    if "lc text = map l text" and "lc (cf_name f) = map l (cf_name f)" for f l
    using unitwise_match [OF that] by (auto simp: filteredFiles_def)
  have d: "f \<in> set (filteredFiles lc fs text FilterAll)
              \<longleftrightarrow> f \<in> set fs \<and> (\<exists>s. sublist s (cf_name f) \<and> list_all2 same_letter s text)"
    if "is_ascii text" and "is_ascii (cf_name f)" for f
    using ascii_match [OF assms that] by (auto simp: filteredFiles_def)
  have g: "filteredFiles lc fs [] ft = filter (\<lambda>f. ft = FilterAll \<or> FilterOnly (cf_type f) = ft) fs"
    by (simp add: filteredFiles_def e inc)
  have h: "filteredFiles lc fs text ft = filteredFiles lc (filteredFiles lc fs text FilterAll) [] ft"
    by (auto simp: filteredFiles_def e inc intro: filter_cong)
  have k: "filteredFiles lc fs text ft = filteredFiles lc (filteredFiles lc fs [] ft) text FilterAll"
    by (auto simp: filteredFiles_def e inc intro: filter_cong)
  from a b c u d g h k show ?thesis
    by blast
qed

text \<open>
  C9 at a catalog of \<^verbatim>\<open>Report.pdf\<close> and \<^verbatim>\<open>clip.mp4\<close>, with the ASCII case mapping: the term
  \<^verbatim>\<open>REPORT\<close> finds the first, whose type is pdf, and not the second.
\<close>

theorem filteredFiles_query_witness:
  "lowers_ascii ascii_lower
   \<and> ascii_lower (js ''REPORT'') = map ascii_lower_unit (js ''REPORT'')
   \<and> ascii_lower (cf_name sample_pdf) = map ascii_lower_unit (cf_name sample_pdf)
   \<and> is_ascii (js ''REPORT'')
   \<and> is_ascii (cf_name sample_pdf)
   \<and> filteredFiles ascii_lower [sample_pdf, sample_video] (js ''REPORT'') FilterAll = [sample_pdf]
   \<and> sample_video \<notin> set (filteredFiles ascii_lower [sample_pdf, sample_video] (js ''REPORT'') FilterAll)
   \<and> (\<exists>s. sublist s (cf_name sample_pdf) \<and> list_all2 same_letter s (js ''REPORT''))
   \<and> sample_pdf \<in> set (filteredFiles ascii_lower [sample_pdf, sample_video] (js ''REPORT'')
                          (FilterOnly Pdf))
   \<and> cf_type sample_pdf = Pdf"
proof -
  let ?fs = "[sample_pdf, sample_video]"
  note h = lowers_ascii_ascii_lower
  have a1: "is_ascii (js ''REPORT'')" and a2: "is_ascii (cf_name sample_pdf)"
    by (simp_all add: is_ascii_def js_def sample_pdf_def)
  have v: "filteredFiles ascii_lower ?fs (js ''REPORT'') FilterAll = [sample_pdf]"
    by (simp add: filteredFiles_def sample_pdf_def sample_video_def js_def ascii_lower_def
        ascii_lower_unit_def)
  then have nv: "sample_video \<notin> set (filteredFiles ascii_lower ?fs (js ''REPORT'') FilterAll)"
    by (simp add: sample_pdf_def sample_video_def)
  have mem: "sample_pdf \<in> set (filteredFiles ascii_lower ?fs (js ''REPORT'') (FilterOnly Pdf))"
    by (simp add: filteredFiles_def sample_pdf_def sample_video_def js_def ascii_lower_def
        ascii_lower_unit_def)
  note T = filteredFiles_query [OF h, of ?fs "js ''REPORT''" Pdf FilterAll]
  from T mem have ty: "cf_type sample_pdf = Pdf"
    by blast
  from v have "sample_pdf \<in> set (filteredFiles ascii_lower ?fs (js ''REPORT'') FilterAll)"
    by simp
  with T a1 a2 have ex: "\<exists>s. sublist s (cf_name sample_pdf) \<and> list_all2 same_letter s (js ''REPORT'')"
    by blast
  have u1: "ascii_lower (js ''REPORT'') = map ascii_lower_unit (js ''REPORT'')"
    and u2: "ascii_lower (cf_name sample_pdf) = map ascii_lower_unit (cf_name sample_pdf)"
    by (simp_all only: ascii_lower_def)
  from h u1 u2 a1 a2 v nv ex mem ty show ?thesis
    by blast
qed

text \<open>
  C9 as stated fails beyond ASCII, where the case mapping depends on the place of a letter
  in its word: the search term of the code units 65, 931 is a contiguous part of the name
  of the code units 65, 931, 66, letter for letter and in the same case, and the view for
  this term does not hold the entry of this name.
\<close>

theorem filteredFiles_sigma_counterexample:
  "lowers_ascii sigma_case
   \<and> sublist [65, 931] (cf_name sample_sigma)
   \<and> filteredFiles sigma_case [sample_sigma] [65, 931] FilterAll = []"
proof -
  have "sublist [65, 931] ([] @ [65, 931] @ [66 :: nat])"
    unfolding sublist_def by blast
  then have s: "sublist [65, 931] (cf_name sample_sigma)"
    by (simp add: sample_sigma_def)
  have f: "filteredFiles sigma_case [sample_sigma] [65, 931] FilterAll = []"
    by (simp add: filteredFiles_def sample_sigma_def sigma_case_def)
  from lowers_ascii_sigma_case s f show ?thesis
    by blast
qed

section \<open>Frame of the catalog updates\<close>

text \<open>
  C10. \<^verbatim>\<open>addFile\<close> puts the new entry last: the old list is the start of the new one, entry
  by entry and in the old order, and the one entry after it is the new entry. The context's
  \<^verbatim>\<open>removeFile(id)\<close> yields a subsequence of the old list, so the order of what stays is
  kept; an entry of that id occurs in it no more, and every other entry occurs as often as
  before.
\<close>

theorem catalog_frame:
  "take (length fs) (addFile fs f) = fs
   \<and> drop (length fs) (addFile fs f) = [f]
   \<and> subseq (removeFile fs i) fs
   \<and> count_list (removeFile fs i) g = (if cf_id g = i then 0 else count_list fs g)"
  by (simp add: addFile_def removeFile_def count_list_filter)

end
